theory Spec2Isabelle
  imports Complex_Main "HOL-Library.Word"
begin

unbundle bit_operations_syntax

section \<open>The contiguous frame pool of \<^verbatim>\<open>cont_frame_pool.C\<close>\<close>

text \<open>
  The kernel this allocator belongs to is built for 32-bit x86, where
  \<^verbatim>\<open>unsigned int\<close> and \<^verbatim>\<open>unsigned long\<close> are both 32 bits wide and
  \<^verbatim>\<open>unsigned char\<close> is 8 bits wide. Arithmetic on them wraps around, as the
  arithmetic of \<^typ>\<open>32 word\<close> and \<^typ>\<open>8 word\<close> does.
\<close>

type_synonym ulong = "32 word"
type_synonym uint = "32 word"
type_synonym uchar = "8 word"

datatype FrameState = Free | Used | HoS | Reserved

text \<open>
  The object state of a \<^verbatim>\<open>ContFramePool\<close>. The member \<^verbatim>\<open>bitmap\<close> is a pointer
  to bytes of physical memory; the field below is the memory seen through that
  pointer, indexed as \<^verbatim>\<open>bitmap[bitmap_index]\<close>. Each pool is taken to have
  bitmap memory of its own, written by nobody else.
\<close>

record ContFramePool =
  base_frame_no :: ulong
  nframes :: ulong
  nFreeFrames :: ulong
  info_frame_no :: ulong
  bitmap :: "uint \<Rightarrow> uchar"

subsection \<open>Helper functions: the two-bit state of a frame\<close>

text \<open>The \<^verbatim>\<open>switch\<close> of \<^verbatim>\<open>get_state\<close>, lines 140-146.\<close>

definition state_of_bits :: "uchar \<Rightarrow> FrameState" where
  "state_of_bits state_bits =
     (if state_bits = 0 then Free
      else if state_bits = 1 then Used
      else if state_bits = 2 then HoS
      else if state_bits = 3 then Reserved
      else Free)"

text \<open>\<^verbatim>\<open>ContFramePool::get_state\<close>, lines 132-147.\<close>

definition get_state :: "ContFramePool \<Rightarrow> ulong \<Rightarrow> FrameState" where
  "get_state p frame_no =
     (let bitmap_index = frame_no * 2 div 8;
          bit_offset = unat ((frame_no * 2) mod 8);
          mask = push_bit bit_offset (3 :: uchar);
          state_bits = drop_bit bit_offset (bitmap p bitmap_index AND mask)
      in state_of_bits state_bits)"

text \<open>The \<^verbatim>\<open>switch\<close> of \<^verbatim>\<open>set_state\<close>, lines 157-162.\<close>

fun state_bits_of :: "FrameState \<Rightarrow> uchar" where
  "state_bits_of Free = 0"
| "state_bits_of Used = 1"
| "state_bits_of HoS = 2"
| "state_bits_of Reserved = 3"

text \<open>\<^verbatim>\<open>ContFramePool::set_state\<close>, lines 149-167.\<close>

definition set_state :: "ContFramePool \<Rightarrow> ulong \<Rightarrow> FrameState \<Rightarrow> ContFramePool" where
  "set_state p frame_no state =
     (let bitmap_index = frame_no * 2 div 8;
          bit_offset = unat ((frame_no * 2) mod 8);
          mask = push_bit bit_offset (3 :: uchar);
          state_bits = state_bits_of state;
          cleared = bitmap p bitmap_index AND NOT mask
      in p\<lparr>bitmap := (bitmap p)(bitmap_index := cleared OR push_bit bit_offset state_bits)\<rparr>)"

subsection \<open>The constructor and the registry of pools\<close>

text \<open>
  The static members \<^verbatim>\<open>frame_pools\<close> and \<^verbatim>\<open>num_pools\<close> (lines 113-114) are
  modelled as the list of the registered pool objects, in the order of their
  registration; \<^verbatim>\<open>num_pools\<close> is its length. The capacity \<^verbatim>\<open>Max_pools\<close> is
  declared in \<^verbatim>\<open>cont_frame_pool.H\<close>; its value is the one the comment at
  line 113 gives.
\<close>

definition Max_pools :: nat where
  "Max_pools = 10"

text \<open>The loop of lines 193-195: every frame below \<^verbatim>\<open>_n_frames\<close> becomes Free.\<close>

function init_frames :: "ContFramePool \<Rightarrow> ulong \<Rightarrow> ulong \<Rightarrow> ContFramePool" where
  "init_frames p n_frames fno =
     (if fno < n_frames then init_frames (set_state p fno Free) n_frames (fno + 1) else p)"
  by pat_completeness auto
termination
proof (relation "measure (\<lambda>(p, n_frames, fno). unat n_frames - unat fno)")
  fix p :: ContFramePool and n_frames fno :: ulong
  assume "fno < n_frames"
  then show "((set_state p fno Free, n_frames, fno + 1), (p, n_frames, fno))
      \<in> measure (\<lambda>(p, n_frames, fno). unat n_frames - unat fno)"
    by simp unat_arith
qed simp

text \<open>
  \<^verbatim>\<open>ContFramePool::ContFramePool\<close>, lines 173-210. The arguments
  \<^verbatim>\<open>frame_pools\<close> and \<^verbatim>\<open>mem\<close> are the registry before the call and the
  contents of the memory the bitmap pointer is set to; the result is the new
  object and the registry after the call.
\<close>

definition ContFramePool ::
  "ContFramePool list \<Rightarrow> (uint \<Rightarrow> uchar) \<Rightarrow> ulong \<Rightarrow> ulong \<Rightarrow> ulong
     \<Rightarrow> ContFramePool \<times> ContFramePool list" where
  "ContFramePool frame_pools mem base n_frames info =
     (let p0 = \<lparr>base_frame_no = base, nframes = n_frames, nFreeFrames = n_frames,
                info_frame_no = info, bitmap = mem\<rparr>;
          p1 = init_frames p0 n_frames 0;
          p2 = (if info_frame_no p1 = 0
                then (set_state p1 0 Used)\<lparr>nFreeFrames := nFreeFrames p1 - 1\<rparr>
                else p1)
      in (p2, if length frame_pools < Max_pools then frame_pools @ [p2] else frame_pools))"

subsection \<open>Allocation\<close>

text \<open>The inner scan of \<^verbatim>\<open>get_frames\<close>, lines 221-230: the value of
  \<^verbatim>\<open>found_sequence\<close> when the loop is left.\<close>

function found_sequence :: "ContFramePool \<Rightarrow> ulong \<Rightarrow> uint \<Rightarrow> uint \<Rightarrow> bool" where
  "found_sequence p start_frame n_frames i =
     (if i < n_frames
      then (if get_state p (start_frame + i) \<noteq> Free then False
            else found_sequence p start_frame n_frames (i + 1))
      else True)"
  by pat_completeness auto
termination
proof (relation "measure (\<lambda>(p, start_frame, n_frames, i). unat n_frames - unat i)")
  fix p :: ContFramePool and start_frame n_frames i :: ulong
  assume "i < n_frames"
  then show "((p, start_frame, n_frames, i + 1), (p, start_frame, n_frames, i))
      \<in> measure (\<lambda>(p, start_frame, n_frames, i). unat n_frames - unat i)"
    by simp unat_arith
qed simp

text \<open>
  The marking loops of lines 237-239 (\<^verbatim>\<open>get_frames\<close>, state Used) and of
  lines 264-266 (\<^verbatim>\<open>mark_inaccessible\<close>, state Reserved): the two loops differ
  in the state they write only.
\<close>

function mark_rest ::
  "ContFramePool \<Rightarrow> ulong \<Rightarrow> ulong \<Rightarrow> FrameState \<Rightarrow> ulong \<Rightarrow> ContFramePool" where
  "mark_rest p start_frame n_frames state i =
     (if i < n_frames
      then mark_rest (set_state p (start_frame + i) state) start_frame n_frames state (i + 1)
      else p)"
  by pat_completeness auto
termination
proof (relation "measure (\<lambda>(p, start_frame, n_frames, state, i). unat n_frames - unat i)")
  fix p :: ContFramePool and start_frame n_frames i :: ulong and state :: FrameState
  assume "i < n_frames"
  then show "((set_state p (start_frame + i) state, start_frame, n_frames, state, i + 1),
       (p, start_frame, n_frames, state, i))
      \<in> measure (\<lambda>(p, start_frame, n_frames, state, i). unat n_frames - unat i)"
    by simp unat_arith
qed simp

text \<open>The block of lines 232-243, run at the start frame the scan accepts.\<close>

definition take_sequence :: "ContFramePool \<Rightarrow> ulong \<Rightarrow> uint \<Rightarrow> ContFramePool \<times> ulong" where
  "take_sequence p start_frame n_frames =
     (let p1 = set_state p start_frame HoS;
          p2 = mark_rest p1 start_frame n_frames Used 1
      in (p2\<lparr>nFreeFrames := nFreeFrames p2 - n_frames\<rparr>, base_frame_no p + start_frame))"

text \<open>
  The outer loop of lines 220-244, from \<^verbatim>\<open>start_frame\<close> on. Its bound
  \<^verbatim>\<open>nframes - _n_frames\<close> is computed in unsigned arithmetic, and the counter
  wraps around, so the loop need not end: \<open>None\<close> is a call that does not
  return.
\<close>

partial_function (option) scan_from ::
  "ContFramePool \<Rightarrow> uint \<Rightarrow> ulong \<Rightarrow> (ContFramePool \<times> ulong) option" where
  "scan_from p n_frames start_frame =
     (if start_frame \<le> nframes p - n_frames
      then (if found_sequence p start_frame n_frames 0
            then Some (take_sequence p start_frame n_frames)
            else scan_from p n_frames (start_frame + 1))
      else Some (p, 0))"

text \<open>\<^verbatim>\<open>ContFramePool::get_frames\<close>, lines 212-247: the pool after the call and
  the value returned.\<close>

definition get_frames :: "ContFramePool \<Rightarrow> uint \<Rightarrow> (ContFramePool \<times> ulong) option" where
  "get_frames p n_frames =
     (if nFreeFrames p < n_frames then Some (p, 0) else scan_from p n_frames 0)"

text \<open>\<^verbatim>\<open>ContFramePool::mark_inaccessible\<close>, lines 249-268.\<close>

definition mark_inaccessible :: "ContFramePool \<Rightarrow> ulong \<Rightarrow> ulong \<Rightarrow> ContFramePool" where
  "mark_inaccessible p base n_frames =
     (let relative_base = base - base_frame_no p
      in if relative_base \<ge> nframes p \<or> relative_base + n_frames > nframes p then p
         else (let p1 = set_state p relative_base HoS;
                   p2 = mark_rest p1 relative_base n_frames Reserved 1
               in p2\<lparr>nFreeFrames := nFreeFrames p2 - n_frames\<rparr>))"

subsection \<open>Release\<close>

text \<open>
  The two fatal paths of \<^verbatim>\<open>release_frames\<close>: a diagnostic on the console,
  then \<^verbatim>\<open>assert(false)\<close>.
\<close>

datatype fatal = Frame_not_found | Not_head_of_sequence

text \<open>The loop of lines 300-317, which walks over the frames that follow the head.\<close>

function release_rest :: "ContFramePool \<Rightarrow> ulong \<Rightarrow> ContFramePool" where
  "release_rest pool current_frame =
     (if current_frame < nframes pool
      then (if get_state pool current_frame = Free then pool
            else if get_state pool current_frame = HoS then pool
            else if get_state pool current_frame = Reserved then pool
            else if get_state pool current_frame = Used
            then release_rest
                   ((set_state pool current_frame Free)\<lparr>nFreeFrames := nFreeFrames pool + 1\<rparr>)
                   (current_frame + 1)
            else pool)
      else pool)"
  by pat_completeness auto
termination
proof (relation "measure (\<lambda>(pool, current_frame). unat (nframes pool) - unat current_frame)")
  fix pool :: ContFramePool and current_frame :: ulong
  assume "current_frame < nframes pool"
  then show "(((set_state pool current_frame Free)\<lparr>nFreeFrames := nFreeFrames pool + 1\<rparr>,
        current_frame + 1), (pool, current_frame))
      \<in> measure (\<lambda>(pool, current_frame). unat (nframes pool) - unat current_frame)"
    by (simp add: set_state_def Let_def) unat_arith
qed simp

text \<open>The block of lines 290-320, run on the pool that owns the frame.\<close>

definition release_sequence :: "ContFramePool \<Rightarrow> ulong \<Rightarrow> ContFramePool" where
  "release_sequence pool relative_frame =
     release_rest ((set_state pool relative_frame Free)\<lparr>nFreeFrames := nFreeFrames pool + 1\<rparr>)
       (relative_frame + 1)"

text \<open>
  The lookup loop of lines 273-322, from registry index \<open>i\<close> on. The result is
  \<open>Inr\<close> of the registry after a call that returns, and \<open>Inl\<close> of the fatal
  path taken together with the registry at the point of the abort.
\<close>

function release_frames_from ::
  "ContFramePool list \<Rightarrow> ulong \<Rightarrow> nat \<Rightarrow> (fatal \<times> ContFramePool list) + ContFramePool list" where
  "release_frames_from frame_pools first_frame_no i =
     (if i < length frame_pools
      then (if first_frame_no \<ge> base_frame_no (frame_pools ! i) \<and>
               first_frame_no < base_frame_no (frame_pools ! i) + nframes (frame_pools ! i)
            then (if get_state (frame_pools ! i)
                       (first_frame_no - base_frame_no (frame_pools ! i)) \<noteq> HoS
                  then Inl (Not_head_of_sequence, frame_pools)
                  else Inr (frame_pools
                         [i := release_sequence (frame_pools ! i)
                                 (first_frame_no - base_frame_no (frame_pools ! i))]))
            else release_frames_from frame_pools first_frame_no (i + 1))
      else Inl (Frame_not_found, frame_pools))"
  by pat_completeness auto
termination
  by (relation "measure (\<lambda>(frame_pools, first_frame_no, i). length frame_pools - i)") auto

text \<open>\<^verbatim>\<open>ContFramePool::release_frames\<close>, lines 270-326.\<close>

definition release_frames ::
  "ContFramePool list \<Rightarrow> ulong \<Rightarrow> (fatal \<times> ContFramePool list) + ContFramePool list" where
  "release_frames frame_pools first_frame_no = release_frames_from frame_pools first_frame_no 0"

subsection \<open>The size of the bitmap\<close>

text \<open>
  \<^verbatim>\<open>ContFramePool::needed_info_frames\<close>, lines 328-337. The constant
  \<^verbatim>\<open>FRAME_SIZE\<close> is declared in \<^verbatim>\<open>cont_frame_pool.H\<close> and is a parameter here.
\<close>

definition needed_info_frames :: "ulong \<Rightarrow> ulong \<Rightarrow> ulong" where
  "needed_info_frames FRAME_SIZE n_frames =
     (let bitmap_size_bytes = (n_frames * 2 + 7) div 8;
          frames_needed = (bitmap_size_bytes + FRAME_SIZE - 1) div FRAME_SIZE
      in frames_needed)"

section \<open>Predicates on pools\<close>

text \<open>The \<open>n\<close> frames from pool offset \<open>s\<close> on are all Free.\<close>

definition all_free :: "ContFramePool \<Rightarrow> ulong \<Rightarrow> ulong \<Rightarrow> bool" where
  "all_free p s n = list_all (\<lambda>k. get_state p (s + of_nat k) = Free) [0..<unat n]"

text \<open>
  The lowest start offset among \<open>0 .. frame_count - n\<close> at which \<open>n\<close> consecutive
  frames are all Free, if there is one.
\<close>

definition first_fit :: "ContFramePool \<Rightarrow> ulong \<Rightarrow> nat option" where
  "first_fit p n =
     find (\<lambda>k. all_free p (of_nat k) n) [0..<Suc (unat (nframes p)) - unat n]"

text \<open>The number of the pool's frames whose state is Free.\<close>

definition count_free :: "ContFramePool \<Rightarrow> nat" where
  "count_free p =
     length (filter (\<lambda>k. get_state p (of_nat k) = Free) [0..<unat (nframes p)])"


text \<open>
  The range test of \<^verbatim>\<open>release_frames\<close>, lines 277-278, in the arithmetic of the
  code.
\<close>

definition owns :: "ContFramePool \<Rightarrow> ulong \<Rightarrow> bool" where
  "owns pool frame_no \<longleftrightarrow>
     base_frame_no pool \<le> frame_no \<and> frame_no < base_frame_no pool + nframes pool"

text \<open>
  No frame that directly follows a Free frame of the pool is Used: every Used
  frame continues the sequence of the frame before it.
\<close>

definition no_used_after_free :: "ContFramePool \<Rightarrow> bool" where
  "no_used_after_free p =
     list_all (\<lambda>k. get_state p (of_nat k) = Free \<longrightarrow> get_state p (of_nat (Suc k)) \<noteq> Used)
       [0..<unat (nframes p) - 1]"

text \<open>
  The frame number lies in \<open>[base_frame_no, base_frame_no + frame_count)\<close>, the
  bounds taken as natural numbers.
\<close>

definition frame_in_range :: "ContFramePool \<Rightarrow> ulong \<Rightarrow> bool" where
  "frame_in_range pool frame_no \<longleftrightarrow>
     unat (base_frame_no pool) \<le> unat frame_no \<and>
     unat frame_no < unat (base_frame_no pool) + unat (nframes pool)"

text \<open>
  Follows the spec's words for \<open>needed_info_frames\<close>, on natural and real numbers:
  \<open>ceil(ceil(n*2/8) / FRAME_SIZE)\<close>.
\<close>

definition spec_needed_info_frames :: "nat \<Rightarrow> nat \<Rightarrow> nat" where
  "spec_needed_info_frames FRAME_SIZE n =
     nat \<lceil>real (nat \<lceil>real (n * 2) / 8\<rceil>) / real FRAME_SIZE\<rceil>"

section \<open>Example pools\<close>

text \<open>Bitmap memory that holds zero bytes before a pool is constructed over it.\<close>

definition zero_mem :: "uint \<Rightarrow> uchar" where
  "zero_mem = (\<lambda>_. 0)"

text \<open>
  Pools of four frames from frame 100 on, with the bitmap in frame 1 and with
  the bitmap hosted in the pool's own first frame.
\<close>

definition external_pool :: ContFramePool where
  "external_pool = fst (ContFramePool [] zero_mem 100 4 1)"

definition self_hosted_pool :: ContFramePool where
  "self_hosted_pool = fst (ContFramePool [] zero_mem 100 4 0)"


definition twice_reserved :: ContFramePool where
  "twice_reserved = mark_inaccessible (mark_inaccessible external_pool 100 2) 100 2"

text \<open>A pool of two frames, both reserved twice: the count of free frames wraps around.\<close>

definition small_pool :: ContFramePool where
  "small_pool = fst (ContFramePool [] zero_mem 100 2 1)"

definition overdrawn_pool :: ContFramePool where
  "overdrawn_pool = mark_inaccessible (mark_inaccessible small_pool 100 2) 100 2"

text \<open>
  Registries: one pool; a pool of frames 16 to 19 and the self-hosted pool of
  frames 100 to 103; two pools with overlapping ranges, frames 100 to 103 (with
  frame 102 reserved, hence a head of sequence) and frames 102 to 105 (all
  Free), registered in this order; and ten pools of four frames each, which
  fill the registry, with an eleventh pool constructed after them.
\<close>

definition one_pool :: "ContFramePool list" where
  "one_pool = snd (ContFramePool [] zero_mem 16 4 1)"

definition two_pools :: "ContFramePool list" where
  "two_pools =
     snd (ContFramePool (snd (ContFramePool [] zero_mem 16 4 1)) zero_mem 100 4 0)"

definition overlapping_pools :: "ContFramePool list" where
  "overlapping_pools =
     [mark_inaccessible external_pool 102 1, fst (ContFramePool [external_pool] zero_mem 102 4 2)]"

primrec registry_of :: "nat \<Rightarrow> ContFramePool list" where
  "registry_of 0 = []"
| "registry_of (Suc i) = snd (ContFramePool (registry_of i) zero_mem (of_nat (16 * Suc i)) 4 1)"

definition full_registry :: "ContFramePool list" where
  "full_registry = registry_of 10"

definition unregistered_pool :: ContFramePool where
  "unregistered_pool = fst (ContFramePool full_registry zero_mem 1000 4 1)"

declare init_frames.simps [simp del] found_sequence.simps [simp del] mark_rest.simps [simp del]
  release_rest.simps [simp del] release_frames_from.simps [simp del]

section \<open>The two-bit slots of the bitmap\<close>

lemma bit3_int: "bit (3::int) n \<longleftrightarrow> n < 2"
proof -
  have "(3::int) = mask 2" by (simp add: mask_eq_exp_minus_1)
  then show ?thesis by (simp only: bit_mask_iff) simp
qed

lemma byte_same:
  "k \<le> 6 \<Longrightarrow>
   drop_bit k (((b AND NOT (push_bit k 3)) OR push_bit k (v AND 3)) AND push_bit k (3::uchar)) = v AND 3"
  by (rule bit_word_eqI) (auto simp add: bit_simps bit3_int)

lemma byte_other:
  "k \<le> 6 \<Longrightarrow> j \<le> 6 \<Longrightarrow> even k \<Longrightarrow> even j \<Longrightarrow> k \<noteq> j \<Longrightarrow>
   drop_bit j (((b AND NOT (push_bit k 3)) OR push_bit k (v AND 3)) AND push_bit j (3::uchar))
     = drop_bit j (b AND push_bit j 3)"
  apply (rule bit_word_eqI)
  apply (auto simp add: bit_simps bit3_int)
   apply presburger+
  done

lemma bit_offset_even: "even (unat ((f * 2 :: ulong) mod 8))"
proof -
  have "even (unat f * 2 mod 4294967296 mod 8)"
    by (metis dvd_mod even_mult_iff even_numeral)
  then show ?thesis by (simp add: unat_mod unat_word_ariths)
qed

lemma bit_offset_le: "unat ((f * 2 :: ulong) mod 8) \<le> 6"
proof -
  have "unat (f * 2 mod 8) < 8" by (simp add: unat_mod)
  with bit_offset_even [of f] show ?thesis by presburger
qed

lemma state_bits_of_and: "state_bits_of st AND 3 = state_bits_of st"
  by (cases st) simp_all

lemma state_of_bits_inverse: "state_of_bits (state_bits_of st) = st"
  by (cases st) (simp_all add: state_of_bits_def)

lemma slot_eqI: "(a::ulong) div 8 = b div 8 \<Longrightarrow> a mod 8 = b mod 8 \<Longrightarrow> a = b"
  by (metis div_mult_mod_eq)

lemma bitmap_set_state:
  "bitmap (set_state p f st) =
     (bitmap p)(f * 2 div 8 :=
        (bitmap p (f * 2 div 8) AND NOT (push_bit (unat (f * 2 mod 8)) 3))
          OR push_bit (unat (f * 2 mod 8)) (state_bits_of st AND 3))"
  by (simp only: set_state_def Let_def state_bits_of_and) simp

lemma get_state_eq:
  "get_state p g =
     state_of_bits (drop_bit (unat (g * 2 mod 8))
        (bitmap p (g * 2 div 8) AND push_bit (unat (g * 2 mod 8)) 3))"
  by (simp only: get_state_def Let_def)

lemma get_state_set_state:
  "get_state (set_state p f st) g = (if f * 2 = g * 2 then st else get_state p g)"
proof (cases "f * 2 = g * 2")
  case True
  have "get_state (set_state p f st) g = state_of_bits (state_bits_of st AND 3)"
    unfolding get_state_eq bitmap_set_state True fun_upd_same
    by (simp only: byte_same [OF bit_offset_le])
  with True show ?thesis by (simp add: state_bits_of_and state_of_bits_inverse)
next
  case False
  show ?thesis
  proof (cases "f * 2 div 8 = g * 2 div 8")
    case same: True
    with False have off: "unat (f * 2 mod 8) \<noteq> unat (g * 2 mod 8)"
      using slot_eqI [of "f * 2" "g * 2"] by (auto simp: word_unat_eq_iff)
    have "get_state (set_state p f st) g = get_state p g"
      unfolding get_state_eq bitmap_set_state same fun_upd_same
      by (simp only: byte_other [OF bit_offset_le bit_offset_le bit_offset_even bit_offset_even off])
    with False show ?thesis by (simp only: if_False)
  next
    case diff: False
    have "get_state (set_state p f st) g = get_state p g"
      unfolding get_state_eq bitmap_set_state using diff by (simp only: fun_upd_other)
    with False show ?thesis by (simp only: if_False)
  qed
qed

section \<open>The loops over frames\<close>

lemma set_state_fields [simp]:
  "nframes (set_state p f st) = nframes p"
  "base_frame_no (set_state p f st) = base_frame_no p"
  "nFreeFrames (set_state p f st) = nFreeFrames p"
  "info_frame_no (set_state p f st) = info_frame_no p"
  by (simp_all add: set_state_def Let_def)

lemma get_state_nFreeFrames_update [simp]:
  "get_state (p\<lparr>nFreeFrames := x\<rparr>) g = get_state p g"
  by (simp add: get_state_def)

lemma suc_unat: "(i::ulong) < n \<Longrightarrow> unat (i + 1) = Suc (unat i)"
  by unat_arith

lemma word_range_step:
  assumes "(i::ulong) < n"
  shows "(i \<le> k \<and> k < n) = (k = i \<or> (i + 1 \<le> k \<and> k < n))"
proof -
  have "unat (i + 1) = Suc (unat i)" using assms by (rule suc_unat)
  then show ?thesis
    using assms by (auto simp: word_le_nat_alt word_less_nat_alt word_unat_eq_iff)
qed

lemma if_chain: "(if A then a else if B then a else b) = (if B \<or> A then a else b)"
  by simp

lemma word_range_ex_step:
  assumes "(i::ulong) < n"
  shows "(\<exists>k. i \<le> k \<and> k < n \<and> Q k) = (Q i \<or> (\<exists>k. i + 1 \<le> k \<and> k < n \<and> Q k))"
proof
  assume "\<exists>k. i \<le> k \<and> k < n \<and> Q k"
  then obtain k where k: "i \<le> k \<and> k < n" "Q k" by blast
  from k(1) have "k = i \<or> (i + 1 \<le> k \<and> k < n)"
    by (simp only: word_range_step [OF assms])
  with k(2) show "Q i \<or> (\<exists>k. i + 1 \<le> k \<and> k < n \<and> Q k)" by blast
next
  assume "Q i \<or> (\<exists>k. i + 1 \<le> k \<and> k < n \<and> Q k)"
  then obtain k where k: "k = i \<or> (i + 1 \<le> k \<and> k < n)" "Q k" by blast
  from k(1) have "i \<le> k \<and> k < n"
    by (simp only: word_range_step [OF assms])
  with k(2) show "\<exists>k. i \<le> k \<and> k < n \<and> Q k" by blast
qed

lemma word_range_all_step:
  assumes "(i::ulong) < n"
  shows "(\<forall>k. i \<le> k \<and> k < n \<longrightarrow> Q k) = (Q i \<and> (\<forall>k. i + 1 \<le> k \<and> k < n \<longrightarrow> Q k))"
proof -
  have "(\<exists>k. i \<le> k \<and> k < n \<and> \<not> Q k) = (\<not> Q i \<or> (\<exists>k. i + 1 \<le> k \<and> k < n \<and> \<not> Q k))"
    using assms by (rule word_range_ex_step)
  then show ?thesis by blast
qed

lemma mark_rest_fields [simp]:
  "nframes (mark_rest p s n st i) = nframes p"
  "base_frame_no (mark_rest p s n st i) = base_frame_no p"
  "nFreeFrames (mark_rest p s n st i) = nFreeFrames p"
  "info_frame_no (mark_rest p s n st i) = info_frame_no p"
  by (induction p s n st i rule: mark_rest.induct; subst mark_rest.simps; simp)+

lemma get_state_mark_rest:
  "get_state (mark_rest p s n st i) g =
     (if \<exists>k. i \<le> k \<and> k < n \<and> (s + k) * 2 = g * 2 then st else get_state p g)"
proof (induction p s n st i rule: mark_rest.induct)
  case (1 p s n st i)
  show ?case
  proof (cases "i < n")
    case True
    have "get_state (mark_rest p s n st i) g
         = get_state (mark_rest (set_state p (s + i) st) s n st (i + 1)) g"
      using True by (subst mark_rest.simps) simp
    also have "\<dots> = (if \<exists>k. i + 1 \<le> k \<and> k < n \<and> (s + k) * 2 = g * 2 then st
                     else if (s + i) * 2 = g * 2 then st else get_state p g)"
      unfolding "1.IH" [OF True] get_state_set_state by (rule refl)
    also have "\<dots> = (if \<exists>k. i \<le> k \<and> k < n \<and> (s + k) * 2 = g * 2 then st else get_state p g)"
      unfolding word_range_ex_step [OF True] by (rule if_chain)
    finally show ?thesis .
  next
    case False
    then have "\<not> (\<exists>k. i \<le> k \<and> k < n)" by auto
    with False show ?thesis by (subst mark_rest.simps) auto
  qed
qed

lemma init_frames_fields [simp]:
  "nframes (init_frames p n i) = nframes p"
  "base_frame_no (init_frames p n i) = base_frame_no p"
  "nFreeFrames (init_frames p n i) = nFreeFrames p"
  "info_frame_no (init_frames p n i) = info_frame_no p"
  by (induction p n i rule: init_frames.induct; subst init_frames.simps; simp)+

lemma get_state_init_frames:
  "get_state (init_frames p n i) g =
     (if \<exists>k. i \<le> k \<and> k < n \<and> k * 2 = g * 2 then Free else get_state p g)"
proof (induction p n i rule: init_frames.induct)
  case (1 p n i)
  show ?case
  proof (cases "i < n")
    case True
    have "get_state (init_frames p n i) g
         = get_state (init_frames (set_state p i Free) n (i + 1)) g"
      using True by (subst init_frames.simps) simp
    also have "\<dots> = (if \<exists>k. i + 1 \<le> k \<and> k < n \<and> k * 2 = g * 2 then Free
                     else if i * 2 = g * 2 then Free else get_state p g)"
      unfolding "1.IH" [OF True] get_state_set_state by (rule refl)
    also have "\<dots> = (if \<exists>k. i \<le> k \<and> k < n \<and> k * 2 = g * 2 then Free else get_state p g)"
      unfolding word_range_ex_step [OF True] by (rule if_chain)
    finally show ?thesis .
  next
    case False
    then have "\<not> (\<exists>k. i \<le> k \<and> k < n)" by auto
    with False show ?thesis by (subst init_frames.simps) auto
  qed
qed

lemma found_sequence_iff:
  "found_sequence p s n i \<longleftrightarrow> (\<forall>k. i \<le> k \<and> k < n \<longrightarrow> get_state p (s + k) = Free)"
proof (induction p s n i rule: found_sequence.induct)
  case (1 p s n i)
  show ?case
  proof (cases "i < n")
    case True
    show ?thesis
    proof (cases "get_state p (s + i) = Free")
      case free: True
      have "found_sequence p s n i = found_sequence p s n (i + 1)"
        using True free by (subst found_sequence.simps) simp
      also have "\<dots> = (\<forall>k. i + 1 \<le> k \<and> k < n \<longrightarrow> get_state p (s + k) = Free)"
        using "1.IH" [OF True] free by simp
      also have "\<dots> = (\<forall>k. i \<le> k \<and> k < n \<longrightarrow> get_state p (s + k) = Free)"
        unfolding word_range_all_step [OF True] using free by simp
      finally show ?thesis .
    next
      case False
      with True show ?thesis by (subst found_sequence.simps) auto
    qed
  next
    case False
    then have "\<not> (\<exists>k. i \<le> k \<and> k < n)" by auto
    with False show ?thesis by (subst found_sequence.simps) auto
  qed
qed

lemma unat_of_nat_less: "j < unat (n::ulong) \<Longrightarrow> unat (of_nat j :: ulong) = j"
  by (metis le_unat_uoi less_imp_le_nat)

lemma of_nat_less_word: "j < unat (n::ulong) \<Longrightarrow> (of_nat j :: ulong) < n"
  by (simp add: word_less_nat_alt unat_of_nat_less)

lemma found_sequence_all_free: "found_sequence p s n 0 = all_free p s n"
proof -
  have "(\<forall>k::ulong. k < n \<longrightarrow> get_state p (s + k) = Free)
        \<longleftrightarrow> (\<forall>j<unat n. get_state p (s + of_nat j) = Free)"
  proof (intro iffI allI impI)
    fix j assume "\<forall>k::ulong. k < n \<longrightarrow> get_state p (s + k) = Free" "j < unat n"
    then show "get_state p (s + of_nat j) = Free" by (simp add: of_nat_less_word)
  next
    fix k :: ulong assume "\<forall>j<unat n. get_state p (s + of_nat j) = Free" "k < n"
    then have "get_state p (s + of_nat (unat k)) = Free" by (simp only: word_less_nat_alt)
    then show "get_state p (s + k) = Free" by simp
  qed
  then show ?thesis
    by (simp add: found_sequence_iff all_free_def list_all_iff Ball_def)
qed

lemma all_free_iff: "all_free p s n \<longleftrightarrow> (\<forall>j<unat n. get_state p (s + of_nat j) = Free)"
  by (simp add: all_free_def list_all_iff Ball_def)

lemma slot_inj:
  assumes "unat (a::ulong) < 2 ^ 31" "unat (b::ulong) < 2 ^ 31" "a * 2 = b * 2"
  shows "a = b"
proof -
  have "unat (a * 2) = unat a * 2" "unat (b * 2) = unat b * 2"
    using assms(1,2) by (simp_all add: unat_word_ariths)
  with assms(3) show ?thesis by (simp add: word_unat_eq_iff)
qed

lemma range_slot:
  assumes "unat (s::ulong) + unat (n::ulong) \<le> 2 ^ 31" "unat (g::ulong) < 2 ^ 31"
  shows "(\<exists>k. i \<le> k \<and> k < n \<and> (s + k) * 2 = g * 2)
         \<longleftrightarrow> (unat s + unat i \<le> unat g \<and> unat g < unat s + unat n)"
proof
  assume "\<exists>k. i \<le> k \<and> k < n \<and> (s + k) * 2 = g * 2"
  then obtain k where k: "i \<le> k" "k < n" "(s + k) * 2 = g * 2" by blast
  from k(2) assms(1) have sk: "unat (s + k) = unat s + unat k"
    by (simp add: unat_word_ariths word_less_nat_alt)
  with k(2) assms(1) have "unat (s + k) < 2 ^ 31" by (simp add: word_less_nat_alt)
  then have "s + k = g" using assms(2) k(3) by (rule slot_inj)
  with sk k(1,2) show "unat s + unat i \<le> unat g \<and> unat g < unat s + unat n"
    by (auto simp: word_less_nat_alt word_le_nat_alt)
next
  assume a: "unat s + unat i \<le> unat g \<and> unat g < unat s + unat n"
  then have "unat (g - s) = unat g - unat s"
    by (simp add: unat_sub word_le_nat_alt)
  with a have "i \<le> g - s \<and> g - s < n \<and> (s + (g - s)) * 2 = g * 2"
    by (simp add: word_less_nat_alt word_le_nat_alt) linarith
  then show "\<exists>k. i \<le> k \<and> k < n \<and> (s + k) * 2 = g * 2" by blast
qed

text \<open>Head and tail of a run, as both get_frames and mark_inaccessible write them.\<close>

lemma get_state_run:
  assumes "unat (s::ulong) + unat (n::ulong) \<le> 2 ^ 31" "unat s < 2 ^ 31" "unat (g::ulong) < 2 ^ 31"
  shows "get_state (mark_rest (set_state p s HoS) s n st 1) g =
     (if unat s < unat g \<and> unat g < unat s + unat n then st
      else if g = s then HoS else get_state p g)"
proof -
  have "(s * 2 = g * 2) = (g = s)"
    using slot_inj [OF assms(2,3)] by auto
  then show ?thesis
    using range_slot [OF assms(1,3), of 1]
    by (simp add: get_state_mark_rest get_state_set_state)
qed

section \<open>The scan of get_frames\<close>

lemma scan_from_find:
  assumes n: "1 \<le> n" "n \<le> nframes p"
  shows "unat start \<le> Suc (unat (nframes p)) - unat n \<Longrightarrow>
     scan_from p n start =
       (case find (\<lambda>k. all_free p (of_nat k) n) [unat start..<Suc (unat (nframes p)) - unat n] of
          None \<Rightarrow> Some (p, 0)
        | Some k \<Rightarrow> Some (take_sequence p (of_nat k) n))"
proof (induction "Suc (unat (nframes p)) - unat n - unat start" arbitrary: start)
  case 0
  from n have B: "unat (nframes p - n) = unat (nframes p) - unat n" "1 \<le> unat n" "unat n \<le> unat (nframes p)"
    by (simp_all add: unat_sub word_le_nat_alt)
  from 0 B have "unat start = Suc (unat (nframes p - n))" by simp
  then have ns: "\<not> start \<le> nframes p - n" by (simp add: word_le_nat_alt)
  from 0 have e: "[unat start..<Suc (unat (nframes p)) - unat n] = []" by simp
  show ?case unfolding e by (subst scan_from.simps) (simp add: ns)
next
  case (Suc m)
  from n have B: "unat (nframes p - n) = unat (nframes p) - unat n" "1 \<le> unat n" "unat n \<le> unat (nframes p)"
    by (simp_all add: unat_sub word_le_nat_alt)
  from Suc.hyps(2) B have lt: "unat start < Suc (unat (nframes p)) - unat n" by simp
  with B have le: "start \<le> nframes p - n" by (simp add: word_le_nat_alt)
  have "unat (nframes p) < 2 ^ 32" using unsigned_less [of "nframes p", where 'a = nat] by simp
  with lt B have "unat start + 1 < 2 ^ 32" by simp
  then have suc: "unat (start + 1) = Suc (unat start)"
    by (simp add: unat_word_ariths)
  have upt: "[unat start..<Suc (unat (nframes p)) - unat n]
        = unat start # [Suc (unat start)..<Suc (unat (nframes p)) - unat n]"
    using lt by (simp add: upt_conv_Cons)
  show ?case
  proof (cases "found_sequence p start n 0")
    case True
    then show ?thesis
      using le by (subst scan_from.simps) (simp add: upt found_sequence_all_free)
  next
    case False
    have "scan_from p n start = scan_from p n (start + 1)"
      using le False by (subst scan_from.simps) simp
    also have "\<dots> = (case find (\<lambda>k. all_free p (of_nat k) n)
                         [unat (start + 1)..<Suc (unat (nframes p)) - unat n] of
          None \<Rightarrow> Some (p, 0) | Some k \<Rightarrow> Some (take_sequence p (of_nat k) n))"
      using Suc.hyps(2) lt suc by (intro Suc.hyps(1)) simp_all
    finally show ?thesis
      using False by (simp add: upt suc found_sequence_all_free)
  qed
qed

lemma get_frames_find:
  assumes "1 \<le> n" "nFreeFrames p < n \<or> n \<le> nframes p"
  shows "get_frames p n =
     (if nFreeFrames p < n then Some (p, 0)
      else case first_fit p n of
             None \<Rightarrow> Some (p, 0)
           | Some k \<Rightarrow> Some (take_sequence p (of_nat k) n))"
  using assms scan_from_find [of n p 0]
  by (auto simp: get_frames_def first_fit_def)

section \<open>Counting free frames\<close>





lemma unat_of_nat_frame: "k < 2 ^ 31 \<Longrightarrow> unat (of_nat k :: ulong) = k"
  by (simp add: unat_of_nat)

lemma get_state_set_state_nat:
  assumes "unat (f::ulong) < 2 ^ 31" "k < 2 ^ 31"
  shows "get_state (set_state p f st) (of_nat k) = (if k = unat f then st else get_state p (of_nat k))"
proof -
  have "(f * 2 = (of_nat k :: ulong) * 2) = (k = unat f)"
    using slot_inj [of f "of_nat k"] assms by (auto simp: unat_of_nat_frame)
  then show ?thesis by (simp add: get_state_set_state)
qed

lemma get_state_run_nat:
  assumes "unat (s::ulong) + unat (n::ulong) \<le> 2 ^ 31" "unat s < 2 ^ 31" "k < 2 ^ 31"
  shows "get_state (mark_rest (set_state p s HoS) s n st 1) (of_nat k) =
     (if unat s < k \<and> k < unat s + unat n then st
      else if k = unat s then HoS else get_state p (of_nat k))"
proof -
  have "((of_nat k :: ulong) = s) = (k = unat s)"
    using assms(3) by (auto simp: unat_of_nat_frame)
  then show ?thesis
    using get_state_run [OF assms(1,2), of "of_nat k" p st] assms(3)
    by (simp add: unat_of_nat_frame)
qed

lemma all_free_nat:
  assumes "all_free p s n" "unat s \<le> k" "k < unat s + unat n"
  shows "get_state p (of_nat k) = Free"
proof -
  from assms(2,3) have "k - unat s < unat n" by simp
  with assms(1) have "get_state p (s + of_nat (k - unat s)) = Free"
    unfolding all_free_iff by blast
  moreover have "s + of_nat (k - unat s) = (of_nat k :: ulong)"
    using assms(2) by simp
  ultimately show ?thesis by (simp only:)
qed


lemma take_sequence_eq:
  "take_sequence p s n =
     ((mark_rest (set_state p s HoS) s n Used 1)\<lparr>nFreeFrames := nFreeFrames p - n\<rparr>,
      base_frame_no p + s)"
  by (simp add: take_sequence_def Let_def)

lemma count_free_nFreeFrames_update [simp]:
  "count_free (p\<lparr>nFreeFrames := x\<rparr>) = count_free p"
  by (simp add: count_free_def)


lemma init_frames_all_free:
  assumes "k < unat n"
  shows "get_state (init_frames p n 0) (of_nat k) = Free"
proof -
  have "(of_nat k :: ulong) < n" using assms by (rule of_nat_less_word)
  then have "\<exists>kw. 0 \<le> kw \<and> kw < n \<and> kw * 2 = (of_nat k :: ulong) * 2" by auto
  then show ?thesis by (simp only: get_state_init_frames if_True)
qed


section \<open>Releasing a sequence\<close>

lemma release_rest_fields [simp]:
  "nframes (release_rest p c) = nframes p"
  "base_frame_no (release_rest p c) = base_frame_no p"
  "info_frame_no (release_rest p c) = info_frame_no p"
  by (induction p c rule: release_rest.induct; subst release_rest.simps; simp)+

lemma release_rest_step:
  "c < nframes p \<Longrightarrow> get_state p c = Used \<Longrightarrow>
   release_rest p c =
     release_rest ((set_state p c Free)\<lparr>nFreeFrames := nFreeFrames p + 1\<rparr>) (c + 1)"
  by (subst release_rest.simps) simp

lemma release_rest_stop:
  "\<not> (c < nframes p \<and> get_state p c = Used) \<Longrightarrow> release_rest p c = p"
  by (subst release_rest.simps) (cases "get_state p c"; simp)




lemma release_sequence_fields [simp]:
  "nframes (release_sequence p r) = nframes p"
  "base_frame_no (release_sequence p r) = base_frame_no p"
  "info_frame_no (release_sequence p r) = info_frame_no p"
  by (simp_all add: release_sequence_def)

lemma release_rest_run:
  "unat (nframes p) \<le> 2 ^ 31 \<Longrightarrow> unat c + m \<le> unat (nframes p) \<Longrightarrow>
   (\<And>k. unat c \<le> k \<Longrightarrow> k < unat c + m \<Longrightarrow> get_state p (of_nat k) = Used) \<Longrightarrow>
   unat c + m = unat (nframes p) \<or> get_state p (of_nat (unat c + m)) \<noteq> Used \<Longrightarrow>
   nFreeFrames (release_rest p c) = nFreeFrames p + of_nat m \<and>
   (\<forall>k<unat (nframes p). get_state (release_rest p c) (of_nat k) =
      (if unat c \<le> k \<and> k < unat c + m then Free else get_state p (of_nat k)))"
proof (induction m arbitrary: p c)
  case 0
  have "\<not> (c < nframes p \<and> get_state p c = Used)"
    using "0.prems"(2,4) by (auto simp: word_less_nat_alt)
  then have "release_rest p c = p" by (rule release_rest_stop)
  then show ?case by auto
next
  case (Suc m)
  let ?p1 = "(set_state p c Free)\<lparr>nFreeFrames := nFreeFrames p + 1\<rparr>"
  from Suc.prems(1,2) have cN: "unat c < unat (nframes p)" "unat c < 2 ^ 31" by simp_all
  then have c: "c < nframes p" by (simp add: word_less_nat_alt)
  have used: "get_state p c = Used" using Suc.prems(3) [of "unat c"] by simp
  have suc: "unat (c + 1) = Suc (unat c)" using c by (rule suc_unat)
  have other: "get_state (set_state p c Free) (of_nat k)
      = (if k = unat c then Free else get_state p (of_nat k))"
    if "k < 2 ^ 31" for k
    using that by (simp add: get_state_set_state_nat [OF cN(2)])
  have "nFreeFrames (release_rest ?p1 (c + 1)) = nFreeFrames ?p1 + of_nat m \<and>
   (\<forall>k<unat (nframes ?p1). get_state (release_rest ?p1 (c + 1)) (of_nat k) =
      (if unat (c + 1) \<le> k \<and> k < unat (c + 1) + m then Free else get_state ?p1 (of_nat k)))"
  proof (rule Suc.IH)
    show "unat (nframes ?p1) \<le> 2 ^ 31" using Suc.prems(1) by simp
    show "unat (c + 1) + m \<le> unat (nframes ?p1)" using Suc.prems(2) suc by simp
    show "get_state ?p1 (of_nat k) = Used" if "unat (c + 1) \<le> k" "k < unat (c + 1) + m" for k
    proof -
      from that suc Suc.prems(1,2) have "k < 2 ^ 31" "k \<noteq> unat c" "unat c \<le> k" "k < unat c + Suc m"
        by simp_all
      then show ?thesis using Suc.prems(3) [of k] by (simp add: other)
    qed
    show "unat (c + 1) + m = unat (nframes ?p1) \<or>
          get_state ?p1 (of_nat (unat (c + 1) + m)) \<noteq> Used"
    proof (cases "unat c + Suc m = unat (nframes p)")
      case True
      then show ?thesis using suc by simp
    next
      case False
      define j where "j = unat c + Suc m"
      from False Suc.prems(1,2,4) have "j < 2 ^ 31" "j \<noteq> unat c"
        "get_state p (of_nat j) \<noteq> Used" unfolding j_def by simp_all
      then have "get_state ?p1 (of_nat j) \<noteq> Used" by (simp add: other)
      moreover have "unat (c + 1) + m = j" unfolding j_def using suc by simp
      ultimately show ?thesis by (simp only:) simp
    qed
  qed
  then have fc: "nFreeFrames (release_rest p c) = nFreeFrames p + of_nat (Suc m)"
    and st: "\<And>k. k < unat (nframes p) \<Longrightarrow> get_state (release_rest p c) (of_nat k) =
      (if Suc (unat c) \<le> k \<and> k < Suc (unat c) + m then Free else get_state ?p1 (of_nat k))"
    using c used suc by (simp_all add: release_rest_step)
  have "get_state (release_rest p c) (of_nat k) =
      (if unat c \<le> k \<and> k < unat c + Suc m then Free else get_state p (of_nat k))"
    if "k < unat (nframes p)" for k
  proof -
    from that Suc.prems(1) have "k < 2 ^ 31" by simp
    then have "get_state (set_state p c Free) (of_nat k)
        = (if k = unat c then Free else get_state p (of_nat k))" by (rule other)
    with st [OF that] have "get_state (release_rest p c) (of_nat k) =
      (if Suc (unat c) \<le> k \<and> k < Suc (unat c) + m then Free
       else if k = unat c then Free else get_state p (of_nat k))"
      by (simp only: get_state_nFreeFrames_update)
    also have "\<dots> = (if unat c \<le> k \<and> k < unat c + Suc m then Free else get_state p (of_nat k))"
      by auto
    finally show ?thesis .
  qed
  with fc show ?case by blast
qed

section \<open>The registry, the constructor and the example pools\<close>

lemma ContFramePool_fields [simp]:
  "base_frame_no (fst (ContFramePool ps mem b n i)) = b"
  "nframes (fst (ContFramePool ps mem b n i)) = n"
  "info_frame_no (fst (ContFramePool ps mem b n i)) = i"
  "nFreeFrames (fst (ContFramePool ps mem b n i)) = (if i = 0 then n - 1 else n)"
  by (simp_all add: ContFramePool_def Let_def)

lemma mark_inaccessible_fields [simp]:
  "base_frame_no (mark_inaccessible p b n) = base_frame_no p"
  "nframes (mark_inaccessible p b n) = nframes p"
  "info_frame_no (mark_inaccessible p b n) = info_frame_no p"
  by (simp_all add: mark_inaccessible_def Let_def)

lemma nFreeFrames_mark_inaccessible:
  "nFreeFrames (mark_inaccessible p b n) =
     (if b - base_frame_no p \<ge> nframes p \<or> b - base_frame_no p + n > nframes p
      then nFreeFrames p else nFreeFrames p - n)"
  by (simp add: mark_inaccessible_def Let_def)

lemma twice_reserved_fields:
  "base_frame_no twice_reserved = 100" "nframes twice_reserved = 4"
  "nFreeFrames twice_reserved = 0"
  by (simp_all add: twice_reserved_def external_pool_def nFreeFrames_mark_inaccessible)

lemma overdrawn_fields:
  "base_frame_no overdrawn_pool = 100" "nframes overdrawn_pool = 2"
  "nFreeFrames overdrawn_pool = 0xFFFFFFFE"
  by (simp_all add: overdrawn_pool_def small_pool_def nFreeFrames_mark_inaccessible)

lemma overdrawn_states:
  "get_state overdrawn_pool 0 = HoS"
  "get_state overdrawn_pool 1 = Reserved"
  "get_state overdrawn_pool 2 = Free"
  "get_state overdrawn_pool 3 = Free"
  "get_state overdrawn_pool 4 = Free"
  by code_simp+

lemma first_fit_Some_iff:
  "first_fit p n = Some k \<longleftrightarrow>
     k + unat n \<le> unat (nframes p) \<and> all_free p (of_nat k) n \<and>
     (\<forall>j<k. \<not> all_free p (of_nat j) n)"
proof -
  let ?m = "Suc (unat (nframes p)) - unat n"
  have "first_fit p n = Some k \<longleftrightarrow>
      (\<exists>i<?m. all_free p (of_nat ([0..<?m] ! i)) n \<and> k = [0..<?m] ! i \<and>
         (\<forall>j<i. \<not> all_free p (of_nat ([0..<?m] ! j)) n))"
    by (simp add: first_fit_def find_Some_iff)
  also have "\<dots> \<longleftrightarrow> (k < ?m \<and> all_free p (of_nat k) n \<and> (\<forall>j<k. \<not> all_free p (of_nat j) n))"
    by auto
  also have "\<dots> \<longleftrightarrow> (k + unat n \<le> unat (nframes p) \<and> all_free p (of_nat k) n \<and>
     (\<forall>j<k. \<not> all_free p (of_nat j) n))"
    by auto
  finally show ?thesis .
qed

lemma first_fit_None_iff:
  "first_fit p n = None \<longleftrightarrow>
     (\<forall>k. k + unat n \<le> unat (nframes p) \<longrightarrow> \<not> all_free p (of_nat k) n)"
proof -
  have "first_fit p n = None \<longleftrightarrow>
      (\<forall>k. k < Suc (unat (nframes p)) - unat n \<longrightarrow> \<not> all_free p (of_nat k) n)"
    by (auto simp add: first_fit_def find_None_iff)
  also have "\<dots> \<longleftrightarrow> (\<forall>k. k + unat n \<le> unat (nframes p) \<longrightarrow> \<not> all_free p (of_nat k) n)"
    by (rule all_cong1) auto
  finally show ?thesis .
qed

lemma self_hosted_fields:
  "base_frame_no self_hosted_pool = 100" "nframes self_hosted_pool = 4"
  "nFreeFrames self_hosted_pool = 3"
  by (simp_all add: self_hosted_pool_def)

lemma release_frames_from_find:
  "release_frames_from ps f i =
     (case find (\<lambda>j. owns (ps ! j) f) [i..<length ps] of
        None \<Rightarrow> Inl (Frame_not_found, ps)
      | Some k \<Rightarrow>
          if get_state (ps ! k) (f - base_frame_no (ps ! k)) \<noteq> HoS
          then Inl (Not_head_of_sequence, ps)
          else Inr (ps[k := release_sequence (ps ! k) (f - base_frame_no (ps ! k))]))"
proof (induction ps f i rule: release_frames_from.induct)
  case (1 ps f i)
  show ?case
  proof (cases "i < length ps")
    case True
    then have upt: "[i..<length ps] = i # [i + 1..<length ps]" by (simp add: upt_conv_Cons)
    show ?thesis
    proof (cases "owns (ps ! i) f")
      case yes: True
      then show ?thesis
        using True by (subst release_frames_from.simps) (simp add: upt owns_def)
    next
      case no: False
      then have c: "\<not> (base_frame_no (ps ! i) \<le> f \<and> f < base_frame_no (ps ! i) + nframes (ps ! i))"
        unfolding owns_def .
      have "release_frames_from ps f i = release_frames_from ps f (i + 1)"
        by (subst release_frames_from.simps) (simp only: True c if_True if_False)
      also have "\<dots> = (case find (\<lambda>j. owns (ps ! j) f) [i + 1..<length ps] of
        None \<Rightarrow> Inl (Frame_not_found, ps)
      | Some k \<Rightarrow>
          if get_state (ps ! k) (f - base_frame_no (ps ! k)) \<noteq> HoS
          then Inl (Not_head_of_sequence, ps)
          else Inr (ps[k := release_sequence (ps ! k) (f - base_frame_no (ps ! k))]))"
        by (rule "1.IH" [OF True c])
      finally show ?thesis using no by (simp add: upt)
    qed
  next
    case False
    then show ?thesis by (subst release_frames_from.simps) simp
  qed
qed

lemma release_frames_resolved:
  assumes "k < length ps" "owns (ps ! k) f" "\<forall>j<k. \<not> owns (ps ! j) f"
  shows "release_frames ps f =
     (if get_state (ps ! k) (f - base_frame_no (ps ! k)) \<noteq> HoS
      then Inl (Not_head_of_sequence, ps)
      else Inr (ps[k := release_sequence (ps ! k) (f - base_frame_no (ps ! k))]))"
proof -
  have "find (\<lambda>j. owns (ps ! j) f) [0..<length ps] = Some k"
    using assms by (auto simp: find_Some_iff intro!: exI [of _ k])
  then show ?thesis by (simp add: release_frames_def release_frames_from_find)
qed

lemma release_frames_unowned:
  assumes "\<forall>j<length ps. \<not> owns (ps ! j) f"
  shows "release_frames ps f = Inl (Frame_not_found, ps)"
proof -
  have "find (\<lambda>j. owns (ps ! j) f) [0..<length ps] = None"
    using assms by (simp add: find_None_iff)
  then show ?thesis by (simp add: release_frames_def release_frames_from_find)
qed

lemma release_frames_Inr:
  assumes "release_frames ps f = Inr ps'"
  obtains k where "k < length ps" "owns (ps ! k) f"
    "get_state (ps ! k) (f - base_frame_no (ps ! k)) = HoS"
    "ps' = ps[k := release_sequence (ps ! k) (f - base_frame_no (ps ! k))]"
proof (cases "find (\<lambda>j. owns (ps ! j) f) [0..<length ps]")
  case None
  with assms show ?thesis by (simp add: release_frames_def release_frames_from_find)
next
  case (Some k)
  then have "k < length ps" "owns (ps ! k) f" by (auto simp: find_Some_iff)
  moreover from Some assms have "get_state (ps ! k) (f - base_frame_no (ps ! k)) = HoS"
    "ps' = ps[k := release_sequence (ps ! k) (f - base_frame_no (ps ! k))]"
    by (auto simp: release_frames_def release_frames_from_find split: if_splits)
  ultimately show ?thesis by (rule that)
qed

lemma owns_relative:
  assumes "owns q f"
  shows "f - base_frame_no q < nframes q"
proof -
  from assms have a: "unat (base_frame_no q) \<le> unat f"
    "unat f < unat (base_frame_no q + nframes q)"
    by (simp_all add: owns_def word_le_nat_alt word_less_nat_alt)
  have "unat (base_frame_no q + nframes q) \<le> unat (base_frame_no q) + unat (nframes q)"
    by (simp add: unat_word_ariths)
  with a have "unat f - unat (base_frame_no q) < unat (nframes q)" by simp
  moreover have "unat (f - base_frame_no q) = unat f - unat (base_frame_no q)"
    using a(1) by (simp add: unat_sub word_le_nat_alt)
  ultimately show ?thesis by (simp add: word_less_nat_alt)
qed



lemma mark_inaccessible_in_range:
  assumes "1 \<le> m" "unat (b - base_frame_no p) + unat m \<le> unat (nframes p)"
  shows "mark_inaccessible p b m =
     (mark_rest (set_state p (b - base_frame_no p) HoS) (b - base_frame_no p) m Reserved 1)
       \<lparr>nFreeFrames := nFreeFrames p - m\<rparr>"
proof -
  let ?rb = "b - base_frame_no p"
  from assms(1) have m1: "1 \<le> unat m" by (simp add: word_le_nat_alt)
  have "unat (nframes p) < 2 ^ 32" using unsigned_less [of "nframes p", where 'a = nat] by simp
  with assms(2) have "unat (?rb + m) = unat ?rb + unat m" by (simp add: unat_word_ariths)
  with assms(2) m1 have "\<not> nframes p \<le> ?rb" "\<not> nframes p < ?rb + m"
    by (simp_all add: word_le_nat_alt word_less_nat_alt)
  then show ?thesis by (simp add: mark_inaccessible_def Let_def)
qed



lemma external_fields:
  "base_frame_no external_pool = 100" "nframes external_pool = 4"
  "nFreeFrames external_pool = 4"
  by (simp_all add: external_pool_def)


lemma get_frames_first_fit:
  assumes N: "unat (nframes p) \<le> 2 ^ 31"
    and n: "1 \<le> n" "n \<le> nFreeFrames p"
    and fit: "first_fit p n = Some k"
  shows "\<exists>p'. get_frames p n = Some (p', base_frame_no p + of_nat k) \<and>
     get_state p' (of_nat k) = HoS \<and>
     (\<forall>i. 1 \<le> i \<and> i < unat n \<longrightarrow> get_state p' (of_nat (k + i)) = Used) \<and>
     nFreeFrames p' = nFreeFrames p - n \<and>
     (\<forall>j. j < unat (nframes p) \<and> (j < k \<or> k + unat n \<le> j) \<longrightarrow>
        get_state p' (of_nat j) = get_state p (of_nat j)) \<and>
     nframes p' = nframes p \<and> base_frame_no p' = base_frame_no p"
proof -
  let ?s = "of_nat k :: ulong"
  let ?p' = "fst (take_sequence p ?s n)"
  from fit have k: "k + unat n \<le> unat (nframes p)" by (simp add: first_fit_Some_iff)
  from n(1) have n1: "1 \<le> unat n" by (simp add: word_le_nat_alt)
  from k N n1 have k31: "k < 2 ^ 31" by simp
  then have sk: "unat ?s = k" by (rule unat_of_nat_frame)
  from k have "n \<le> nframes p" by (simp add: word_le_nat_alt)
  moreover from n(2) have "\<not> nFreeFrames p < n" by (simp add: not_less)
  ultimately have "get_frames p n = Some (take_sequence p ?s n)"
    using n(1) fit by (simp add: get_frames_find)
  then have res: "get_frames p n = Some (?p', base_frame_no p + ?s)"
    by (simp add: take_sequence_eq)
  have b: "unat ?s + unat n \<le> 2 ^ 31" "unat ?s < 2 ^ 31"
    using k N k31 sk by simp_all
  have st: "get_state ?p' (of_nat j) =
     (if k < j \<and> j < k + unat n then Used else if j = k then HoS else get_state p (of_nat j))"
    if "j < 2 ^ 31" for j
    using get_state_run_nat [OF b that, of p Used] sk by (simp add: take_sequence_eq)
  have "get_state ?p' (of_nat k) = HoS" using st [OF k31] by simp
  moreover have "get_state ?p' (of_nat (k + i)) = Used" if "1 \<le> i \<and> i < unat n" for i
  proof -
    from that k N have "k + i < 2 ^ 31" by simp
    from st [OF this] that show ?thesis by simp
  qed
  moreover have "get_state ?p' (of_nat j) = get_state p (of_nat j)"
    if "j < unat (nframes p) \<and> (j < k \<or> k + unat n \<le> j)" for j
  proof -
    from that N have "j < 2 ^ 31" by simp
    from st [OF this] that n1 show ?thesis by auto
  qed
  moreover have "nFreeFrames ?p' = nFreeFrames p - n" "nframes ?p' = nframes p"
    "base_frame_no ?p' = base_frame_no p"
    by (simp_all add: take_sequence_eq)
  ultimately show ?thesis using res by blast
qed

lemma no_used_after_freeD:
  assumes "no_used_after_free p" "Suc k < unat (nframes p)" "get_state p (of_nat k) = Free"
  shows "get_state p (of_nat (Suc k)) \<noteq> Used"
  using assms unfolding no_used_after_free_def list_all_iff by auto

lemma owns_offset:
  assumes "unat (base_frame_no q) + unat (nframes q) < 2 ^ 32" "s < unat (nframes q)"
  shows "owns q (base_frame_no q + of_nat s)"
    and "base_frame_no q + of_nat s - base_frame_no q = of_nat s"
proof -
  from assms have s32: "s < 2 ^ 32" by simp
  then have us: "unat (of_nat s :: ulong) = s" by (simp add: unat_of_nat)
  from assms us have "unat (base_frame_no q + of_nat s) = unat (base_frame_no q) + s"
    by (simp add: unat_word_ariths)
  moreover from assms have "unat (base_frame_no q + nframes q)
      = unat (base_frame_no q) + unat (nframes q)"
    by (simp add: unat_word_ariths)
  ultimately show "owns q (base_frame_no q + of_nat s)"
    using assms(2) by (simp add: owns_def word_le_nat_alt word_less_nat_alt)
  show "base_frame_no q + of_nat s - base_frame_no q = of_nat s" by simp
qed

lemma owns_fields_cong:
  "base_frame_no q' = base_frame_no q \<Longrightarrow> nframes q' = nframes q \<Longrightarrow> owns q' f = owns q f"
  by (simp add: owns_def)

lemma release_frames_at:
  assumes k: "k < length ps" and own: "owns q f" and before: "\<forall>j<k. \<not> owns (ps ! j) f"
    and hos: "get_state q (f - base_frame_no q) = HoS"
  shows "release_frames (ps[k := q]) f = Inr (ps[k := release_sequence q (f - base_frame_no q)])"
proof -
  have "release_frames (ps[k := q]) f =
     (if get_state (ps[k := q] ! k) (f - base_frame_no (ps[k := q] ! k)) \<noteq> HoS
      then Inl (Not_head_of_sequence, ps[k := q])
      else Inr (ps[k := q, k := release_sequence (ps[k := q] ! k) (f - base_frame_no (ps[k := q] ! k))]))"
    using k own before by (intro release_frames_resolved) simp_all
  then show ?thesis using k hos by simp
qed

lemma round_trip:
  assumes N: "unat (nframes p) \<le> 2 ^ 31"
    and n: "1 \<le> n"
    and fit: "first_fit p n = Some s"
    and stray: "no_used_after_free p"
  defines "p' \<equiv> fst (take_sequence p (of_nat s) n)"
  shows "nFreeFrames (release_sequence p' (of_nat s)) = nFreeFrames p"
    and "\<forall>j<unat (nframes p). get_state (release_sequence p' (of_nat s)) (of_nat j)
            = get_state p (of_nat j)"
    and "\<forall>i<unat n. get_state (release_sequence p' (of_nat s)) (of_nat (s + i)) = Free"
proof -
  let ?s = "of_nat s :: ulong"
  from fit have k: "s + unat n \<le> unat (nframes p)" and free: "all_free p ?s n"
    by (simp_all add: first_fit_Some_iff)
  from n have n1: "1 \<le> unat n" by (simp add: word_le_nat_alt)
  from k N n1 have s31: "s < 2 ^ 31" by simp
  then have us: "unat ?s = s" by (rule unat_of_nat_frame)
  have b: "unat ?s + unat n \<le> 2 ^ 31" "unat ?s < 2 ^ 31" using k N s31 us by simp_all
  have p'_eq: "p' = (mark_rest (set_state p ?s HoS) ?s n Used 1)\<lparr>nFreeFrames := nFreeFrames p - n\<rparr>"
    by (simp add: p'_def take_sequence_eq)
  have st': "get_state p' (of_nat j) =
     (if s < j \<and> j < s + unat n then Used else if j = s then HoS else get_state p (of_nat j))"
    if "j < 2 ^ 31" for j
    using get_state_run_nat [OF b that, of p Used] us by (simp add: p'_eq)
  have pfree: "get_state p (of_nat j) = Free" if "s \<le> j" "j < s + unat n" for j
    using free that us by (intro all_free_nat [of p ?s n]) simp_all
  let ?p1 = "(set_state p' ?s Free)\<lparr>nFreeFrames := nFreeFrames p' + 1\<rparr>"
  have st1: "get_state ?p1 (of_nat j) =
     (if s < j \<and> j < s + unat n then Used else if j = s then Free else get_state p (of_nat j))"
    if "j < 2 ^ 31" for j
    using st' [OF that] that by (simp add: get_state_set_state_nat [OF b(2)] us)
  have f1: "nframes ?p1 = nframes p" "nFreeFrames ?p1 = nFreeFrames p - n + 1"
    by (simp_all add: p'_eq)
  have c: "unat (?s + 1) = Suc s" using us s31 by (simp add: unat_word_ariths)
  have run: "nFreeFrames (release_rest ?p1 (?s + 1)) = nFreeFrames ?p1 + of_nat (unat n - 1) \<and>
   (\<forall>j<unat (nframes ?p1). get_state (release_rest ?p1 (?s + 1)) (of_nat j) =
      (if unat (?s + 1) \<le> j \<and> j < unat (?s + 1) + (unat n - 1) then Free
       else get_state ?p1 (of_nat j)))"
  proof (rule release_rest_run)
    show "unat (nframes ?p1) \<le> 2 ^ 31" using N by (simp add: f1)
    show "unat (?s + 1) + (unat n - 1) \<le> unat (nframes ?p1)" using k n1 c by (simp add: f1)
    show "get_state ?p1 (of_nat j) = Used"
      if "unat (?s + 1) \<le> j" "j < unat (?s + 1) + (unat n - 1)" for j
    proof -
      from that c n1 k N have "j < 2 ^ 31" "s < j \<and> j < s + unat n" by simp_all
      then show ?thesis using st1 [of j] by simp
    qed
    show "unat (?s + 1) + (unat n - 1) = unat (nframes ?p1) \<or>
          get_state ?p1 (of_nat (unat (?s + 1) + (unat n - 1))) \<noteq> Used"
    proof (cases "s + unat n = unat (nframes p)")
      case True
      then show ?thesis using c n1 by (simp add: f1)
    next
      case False
      define e where "e = s + unat n"
      from False k N have e: "e < unat (nframes p)" "e < 2 ^ 31" unfolding e_def by simp_all
      have "get_state p (of_nat (e - 1)) = Free" using n1 unfolding e_def by (intro pfree) simp_all
      moreover have "Suc (e - 1) = e" using n1 unfolding e_def by simp
      ultimately have "get_state p (of_nat e) \<noteq> Used"
        using no_used_after_freeD [OF stray, of "e - 1"] e(1) by simp
      then have "get_state ?p1 (of_nat e) \<noteq> Used"
        using st1 [OF e(2)] n1 unfolding e_def by simp
      moreover have "unat (?s + 1) + (unat n - 1) = e" using c n1 unfolding e_def by simp
      ultimately show ?thesis by (simp only:) simp
    qed
  qed
  have rs: "release_sequence p' ?s = release_rest ?p1 (?s + 1)"
    by (simp add: release_sequence_def)
  have "of_nat (unat n - 1) = n - 1" using n1 by (simp add: of_nat_diff)
  with run show "nFreeFrames (release_sequence p' ?s) = nFreeFrames p"
    by (simp add: rs f1)
  have final: "get_state (release_sequence p' ?s) (of_nat j) = get_state p (of_nat j)"
    if "j < unat (nframes p)" for j
  proof -
    from that N have j31: "j < 2 ^ 31" by simp
    from run that have "get_state (release_sequence p' ?s) (of_nat j) =
      (if Suc s \<le> j \<and> j < Suc s + (unat n - 1) then Free else get_state ?p1 (of_nat j))"
      unfolding rs c f1 by blast
    also have "\<dots> = (if s \<le> j \<and> j < s + unat n then Free else get_state p (of_nat j))"
      unfolding st1 [OF j31] using n1 by auto
    also have "\<dots> = get_state p (of_nat j)" using pfree [of j] by simp
    finally show ?thesis .
  qed
  then show "\<forall>j<unat (nframes p). get_state (release_sequence p' ?s) (of_nat j)
            = get_state p (of_nat j)" by blast
  show "\<forall>i<unat n. get_state (release_sequence p' ?s) (of_nat (s + i)) = Free"
  proof (intro allI impI)
    fix i assume "i < unat n"
    with k have "s + i < unat (nframes p)" "s \<le> s + i" "s + i < s + unat n" by simp_all
    then show "get_state (release_sequence p' ?s) (of_nat (s + i)) = Free"
      using final [of "s + i"] pfree [of "s + i"] by (simp only:)
  qed
qed

lemma snd_ContFramePool:
  "snd (ContFramePool ps mem b n i) =
     (if length ps < Max_pools then ps @ [fst (ContFramePool ps mem b n i)] else ps)"
  by (simp add: ContFramePool_def Let_def)

lemma get_frames_fit_eq:
  assumes "1 \<le> n" "n \<le> nFreeFrames p" "first_fit p n = Some s"
  shows "get_frames p n = Some (take_sequence p (of_nat s) n)"
proof -
  from assms(3) have "s + unat n \<le> unat (nframes p)" by (simp add: first_fit_Some_iff)
  then have "n \<le> nframes p" by (simp add: word_le_nat_alt)
  moreover from assms(2) have "\<not> nFreeFrames p < n" by (simp add: not_less)
  ultimately show ?thesis using assms(1,3) by (simp add: get_frames_find)
qed

lemma two_pools_eq:
  "two_pools = [fst (ContFramePool [] zero_mem 16 4 1), self_hosted_pool]"
  by (simp add: two_pools_def self_hosted_pool_def snd_ContFramePool Max_pools_def
      ContFramePool_def Let_def)

lemma full_registry_length: "length full_registry = 10"
  by code_simp

lemma full_registry_unowned: "\<forall>j<length full_registry. \<not> owns (full_registry ! j) 1000"
proof -
  have "list_all (\<lambda>q. \<not> owns q 1000) full_registry" by code_simp
  then show ?thesis by (simp add: list_all_length)
qed

lemma unregistered_fields:
  "base_frame_no unregistered_pool = 1000" "nframes unregistered_pool = 4"
  "nFreeFrames unregistered_pool = 4"
  by (simp_all add: unregistered_pool_def)

lemma owns_imp_frame_in_range:
  assumes "owns q f"
  shows "frame_in_range q f"
proof -
  have "unat (base_frame_no q + nframes q) \<le> unat (base_frame_no q) + unat (nframes q)"
    by (simp add: unat_word_ariths)
  with assms show ?thesis
    by (simp add: owns_def frame_in_range_def word_le_nat_alt word_less_nat_alt)
qed

lemma owns_iff_frame_in_range:
  assumes "unat (base_frame_no q) + unat (nframes q) < 2 ^ 32"
  shows "owns q f = frame_in_range q f"
proof -
  from assms have "unat (base_frame_no q + nframes q) = unat (base_frame_no q) + unat (nframes q)"
    by (simp add: unat_word_ariths)
  then show ?thesis
    by (simp add: owns_def frame_in_range_def word_le_nat_alt word_less_nat_alt)
qed

lemma reserved_head_release:
  assumes N: "unat (nframes p) \<le> 2 ^ 31"
    and le: "unat (b - base_frame_no p) + unat n \<le> unat (nframes p)"
    and n: "1 < n"
  defines "rb \<equiv> b - base_frame_no p"
  defines "pm \<equiv> mark_inaccessible p b n"
  shows "get_state pm rb = HoS"
    and "release_sequence pm rb = (set_state pm rb Free)\<lparr>nFreeFrames := nFreeFrames pm + 1\<rparr>"
    and "get_state (release_sequence pm rb) rb = Free"
    and "\<forall>i. 1 \<le> i \<and> i < unat n \<longrightarrow>
           get_state (release_sequence pm rb) (rb + of_nat i) = Reserved"
    and "\<forall>j<unat (nframes p). j \<noteq> unat rb \<longrightarrow>
           get_state (release_sequence pm rb) (of_nat j) = get_state pm (of_nat j)"
proof -
  from n have n2: "2 \<le> unat n" by (simp add: word_less_nat_alt)
  then have n1: "1 \<le> n" by (simp add: word_le_nat_alt)
  have le': "unat rb + unat n \<le> unat (nframes p)" using le by (simp add: rb_def)
  with N n2 have b: "unat rb + unat n \<le> 2 ^ 31" "unat rb < 2 ^ 31" by simp_all
  have pm_eq: "pm = (mark_rest (set_state p rb HoS) rb n Reserved 1)\<lparr>nFreeFrames := nFreeFrames p - n\<rparr>"
    unfolding pm_def rb_def by (rule mark_inaccessible_in_range [OF n1 le])
  have stm: "get_state pm (of_nat j) =
     (if unat rb < j \<and> j < unat rb + unat n then Reserved
      else if j = unat rb then HoS else get_state p (of_nat j))" if "j < 2 ^ 31" for j
    using get_state_run_nat [OF b that, of p Reserved] by (simp add: pm_eq)
  have rbn: "of_nat (unat rb) = rb" by simp
  from stm [OF b(2)] show hos: "get_state pm rb = HoS" by simp
  let ?p1 = "(set_state pm rb Free)\<lparr>nFreeFrames := nFreeFrames pm + 1\<rparr>"
  have st1: "get_state ?p1 (of_nat j) = (if j = unat rb then Free else get_state pm (of_nat j))"
    if "j < 2 ^ 31" for j
    using that by (simp add: get_state_set_state_nat [OF b(2)])
  have c: "unat (rb + 1) = Suc (unat rb)" using b(2) by (simp add: unat_word_ariths)
  have "Suc (unat rb) < 2 ^ 31" using b n2 by simp
  from st1 [OF this] stm [OF this] n2 have "get_state ?p1 (of_nat (Suc (unat rb))) = Reserved"
    by simp
  moreover have "of_nat (Suc (unat rb)) = rb + 1" by simp
  ultimately have "get_state ?p1 (rb + 1) = Reserved" by (simp only:)
  then have "release_rest ?p1 (rb + 1) = ?p1" by (intro release_rest_stop) simp
  then show rs: "release_sequence pm rb = ?p1" by (simp add: release_sequence_def)
  show "get_state (release_sequence pm rb) rb = Free"
    unfolding rs by (simp add: get_state_set_state)
  show "\<forall>i. 1 \<le> i \<and> i < unat n \<longrightarrow>
           get_state (release_sequence pm rb) (rb + of_nat i) = Reserved"
  proof (intro allI impI)
    fix i assume i: "1 \<le> i \<and> i < unat n"
    with b have j: "unat rb + i < 2 ^ 31" by simp
    have "get_state ?p1 (of_nat (unat rb + i)) = Reserved"
      using st1 [OF j] stm [OF j] i by simp
    moreover have "of_nat (unat rb + i) = rb + of_nat i" by simp
    ultimately show "get_state (release_sequence pm rb) (rb + of_nat i) = Reserved"
      unfolding rs by (simp only:)
  qed
  show "\<forall>j<unat (nframes p). j \<noteq> unat rb \<longrightarrow>
           get_state (release_sequence pm rb) (of_nat j) = get_state pm (of_nat j)"
  proof (intro allI impI)
    fix j assume "j < unat (nframes p)" "j \<noteq> unat rb"
    with N have "j < 2 ^ 31" by simp
    from st1 [OF this] \<open>j \<noteq> unat rb\<close>
    show "get_state (release_sequence pm rb) (of_nat j) = get_state pm (of_nat j)"
      unfolding rs by simp
  qed
qed

lemma one_pool_eq: "one_pool = [fst (ContFramePool [] zero_mem 16 4 1)]"
  by (simp add: one_pool_def snd_ContFramePool Max_pools_def)

lemma ceiling_nat_div:
  assumes "0 < b"
  shows "nat \<lceil>real a / real b\<rceil> = (a + b - 1) div b"
proof -
  define q where "q = (a + b - 1) div b"
  have lo: "q * b \<le> a + b - 1" unfolding q_def by simp
  have hi: "a + b - 1 < (q + 1) * b"
    unfolding q_def using assms dividend_less_div_times [of b "a + b - 1"] by (simp add: algebra_simps)
  from hi assms have "a \<le> q * b" by simp
  then have "real a \<le> real q * real b" by (metis of_nat_le_iff of_nat_mult)
  then have up: "real a / real b \<le> of_int (int q)"
    using assms by (simp add: pos_divide_le_eq)
  from lo assms have "q * b < a + b" by simp
  then have "real q * real b < real a + real b" by (metis of_nat_less_iff of_nat_mult of_nat_add)
  then have "(real q - 1) * real b < real a" by (simp add: algebra_simps)
  then have low: "of_int (int q) - 1 < real a / real b"
    using assms by (simp add: pos_less_divide_eq)
  from low up have "\<lceil>real a / real b\<rceil> = int q" by (rule ceiling_unique)
  then show ?thesis by (simp add: q_def)
qed

lemma mark_inaccessible_rejected:
  assumes "nframes p \<le> b - base_frame_no p \<or>
     (unat (nframes p) < unat (b - base_frame_no p) + unat n \<and>
      unat (b - base_frame_no p) + unat n < 2 ^ 32)"
  shows "mark_inaccessible p b n = p"
proof -
  have "nframes p \<le> b - base_frame_no p \<or> nframes p < b - base_frame_no p + n"
    using assms by (auto simp: word_less_nat_alt unat_word_ariths)
  then show ?thesis by (simp add: mark_inaccessible_def Let_def)
qed

lemma get_frames_no_run:
  assumes "1 \<le> n" "nFreeFrames p < n \<or> n \<le> nframes p"
    and "nFreeFrames p < n \<or> first_fit p n = None"
  shows "get_frames p n = Some (p, 0)"
  using assms by (auto simp: get_frames_find)

section \<open>No Used frame directly after a Free frame\<close>

text \<open>
  The release walk frees every Used frame that follows the head, so a sequence
  is released exactly when the frame after its last one is not Used. A Used
  frame directly after a Free frame never arises in pools of at most \<open>2 ^ 31\<close>
  frames: the constructor establishes the property, and \<^verbatim>\<open>get_frames\<close>,
  an accepted \<^verbatim>\<open>mark_inaccessible\<close> without wrap-around and
  \<^verbatim>\<open>release_frames\<close> preserve it.
\<close>

lemma no_used_after_free_iff:
  "no_used_after_free p \<longleftrightarrow>
     (\<forall>k. Suc k < unat (nframes p) \<longrightarrow> get_state p (of_nat k) = Free \<longrightarrow>
        get_state p (of_nat (Suc k)) \<noteq> Used)"
  unfolding no_used_after_free_def list_all_iff by auto

lemma no_used_after_free_nFreeFrames_update [simp]:
  "no_used_after_free (p\<lparr>nFreeFrames := x\<rparr>) = no_used_after_free p"
  by (simp add: no_used_after_free_def)

lemma mark_inaccessible_accepted:
  assumes "unat (b - base_frame_no p) < unat (nframes p)"
    "unat (b - base_frame_no p) + unat m \<le> unat (nframes p)"
  shows "mark_inaccessible p b m =
     (mark_rest (set_state p (b - base_frame_no p) HoS) (b - base_frame_no p) m Reserved 1)
       \<lparr>nFreeFrames := nFreeFrames p - m\<rparr>"
proof -
  let ?rb = "b - base_frame_no p"
  have "unat (nframes p) < 2 ^ 32" using unsigned_less [of "nframes p", where 'a = nat] by simp
  with assms(2) have "unat (?rb + m) = unat ?rb + unat m" by (simp add: unat_word_ariths)
  with assms have "\<not> nframes p \<le> ?rb" "\<not> nframes p < ?rb + m"
    by (simp_all add: word_le_nat_alt word_less_nat_alt)
  then show ?thesis by (simp add: mark_inaccessible_def Let_def)
qed

lemma run_no_used_after_free:
  assumes N: "unat (nframes p) \<le> 2 ^ 31"
    and s: "unat s < unat (nframes p)" and le: "unat s + unat n \<le> unat (nframes p)"
    and inv: "no_used_after_free p" and nf: "st \<noteq> Free"
  shows "no_used_after_free (mark_rest (set_state p s HoS) s n st 1)"
proof -
  let ?p' = "mark_rest (set_state p s HoS) s n st 1"
  from N s le have b: "unat s + unat n \<le> 2 ^ 31" "unat s < 2 ^ 31" by simp_all
  have st: "get_state ?p' (of_nat j) =
     (if unat s < j \<and> j < unat s + unat n then st
      else if j = unat s then HoS else get_state p (of_nat j))" if "j < 2 ^ 31" for j
    using that by (rule get_state_run_nat [OF b])
  show ?thesis
    unfolding no_used_after_free_iff
  proof (intro allI impI)
    fix k assume k: "Suc k < unat (nframes ?p')" and free: "get_state ?p' (of_nat k) = Free"
    from k N have k31: "k < 2 ^ 31" "Suc k < 2 ^ 31" "Suc k < unat (nframes p)" by simp_all
    from free st [OF k31(1)] nf have knot: "\<not> (unat s \<le> k \<and> k < unat s + unat n)"
      and kfree: "get_state p (of_nat k) = Free"
      by (auto split: if_splits) 
    from inv kfree k31(3) have old: "get_state p (of_nat (Suc k)) \<noteq> Used"
      by (simp add: no_used_after_free_iff)
    show "get_state ?p' (of_nat (Suc k)) \<noteq> Used"
    proof (cases "unat s < Suc k \<and> Suc k < unat s + unat n")
      case True
      with knot show ?thesis by simp
    next
      case False
      with st [OF k31(2)] old show ?thesis by auto
    qed
  qed
qed


lemma get_frames_no_used_after_free:
  assumes N: "unat (nframes p) \<le> 2 ^ 31" and le: "nFreeFrames p \<le> nframes p"
    and m: "1 \<le> m" and inv: "no_used_after_free p"
  shows "\<exists>p' r. get_frames p m = Some (p', r) \<and> no_used_after_free p'"
proof -
  from le have g: "nFreeFrames p < m \<or> m \<le> nframes p" by auto
  show ?thesis
  proof (cases "nFreeFrames p < m \<or> first_fit p m = None")
    case True
    with m le have "get_frames p m = Some (p, 0)" by (auto simp: get_frames_find g)
    with inv show ?thesis by blast
  next
    case False
    then obtain k where k: "first_fit p m = Some k" and nl: "\<not> nFreeFrames p < m" by auto
    then have kk: "k + unat m \<le> unat (nframes p)" by (simp add: first_fit_Some_iff)
    from m have "1 \<le> unat m" by (simp add: word_le_nat_alt)
    with kk N have "k < 2 ^ 31" "k < unat (nframes p)" by simp_all
    then have sk: "unat (of_nat k :: ulong) = k" by (simp add: unat_of_nat_frame)
    have "no_used_after_free (mark_rest (set_state p (of_nat k) HoS) (of_nat k) m Used 1)"
      using N _ _ inv by (rule run_no_used_after_free) (simp_all add: sk kk \<open>k < unat (nframes p)\<close>)
    moreover have "get_frames p m = Some (take_sequence p (of_nat k) m)"
      using m g k nl by (simp add: get_frames_find)
    ultimately show ?thesis by (simp add: take_sequence_eq)
  qed
qed

lemma mark_inaccessible_no_used_after_free:
  assumes N: "unat (nframes p) \<le> 2 ^ 31"
    and s: "unat (b - base_frame_no p) < unat (nframes p)"
    and le: "unat (b - base_frame_no p) + unat m \<le> unat (nframes p)"
    and inv: "no_used_after_free p"
  shows "no_used_after_free (mark_inaccessible p b m)"
  unfolding mark_inaccessible_accepted [OF s le]
  using run_no_used_after_free [OF N s le inv, of Reserved] by simp

lemma ContFramePool_no_used_after_free:
  assumes N: "unat n \<le> 2 ^ 31"
  shows "no_used_after_free (fst (ContFramePool ps mem base n info))"
proof -
  define p0 where "p0 = \<lparr>base_frame_no = base, nframes = n, nFreeFrames = n,
                info_frame_no = info, bitmap = mem\<rparr>"
  define p1 where "p1 = init_frames p0 n 0"
  have f1: "nframes p1 = n" by (simp add: p1_def p0_def)
  have free1: "get_state p1 (of_nat k) = Free" if "k < unat n" for k
    using that unfolding p1_def using init_frames_all_free [of k n p0] by simp
  have inv1: "no_used_after_free p1"
    unfolding no_used_after_free_iff f1
  proof (intro allI impI)
    fix k assume "Suc k < unat n"
    then have "get_state p1 (of_nat (Suc k)) = Free" by (rule free1)
    then show "get_state p1 (of_nat (Suc k)) \<noteq> Used" by (simp del: of_nat_Suc)
  qed
  show ?thesis
  proof (cases "info = 0")
    case False
    then have "fst (ContFramePool ps mem base n info) = p1"
      by (simp add: ContFramePool_def p1_def p0_def Let_def)
    with inv1 show ?thesis by simp
  next
    case True
    have eq: "fst (ContFramePool ps mem base n info)
        = (set_state p1 0 Used)\<lparr>nFreeFrames := nFreeFrames p1 - 1\<rparr>"
      using True by (simp add: ContFramePool_def p1_def p0_def Let_def)
    have "no_used_after_free (set_state p1 0 Used)"
      unfolding no_used_after_free_iff
    proof (intro allI impI)
      fix k assume k: "Suc k < unat (nframes (set_state p1 0 Used))"
      with N f1 have "Suc k < 2 ^ 31" "Suc k < unat n" by simp_all
      then show "get_state (set_state p1 0 Used) (of_nat (Suc k)) \<noteq> Used"
        using get_state_set_state_nat [of 0 "Suc k" p1 Used] free1 [of "Suc k"]
        by (simp del: of_nat_Suc)
    qed
    then show ?thesis by (simp add: eq)
  qed
qed


lemma free_one_gap:
  assumes N: "unat (nframes p) \<le> 2 ^ 31" and c: "c < nframes p"
    and I: "\<forall>k. Suc k < unat (nframes p) \<longrightarrow> Suc k \<noteq> unat c \<longrightarrow>
              get_state p (of_nat k) = Free \<longrightarrow> get_state p (of_nat (Suc k)) \<noteq> Used"
  shows "\<forall>k. Suc k < unat (nframes p) \<longrightarrow> Suc k \<noteq> unat (c + 1) \<longrightarrow>
              get_state (set_state p c Free) (of_nat k) = Free \<longrightarrow>
              get_state (set_state p c Free) (of_nat (Suc k)) \<noteq> Used"
proof (intro allI impI)
  fix k
  assume k: "Suc k < unat (nframes p)" and ne: "Suc k \<noteq> unat (c + 1)"
    and free: "get_state (set_state p c Free) (of_nat k) = Free"
  from c N have cN: "unat c < 2 ^ 31" by (simp add: word_less_nat_alt)
  from k N have k31: "k < 2 ^ 31" "Suc k < 2 ^ 31" by simp_all
  from ne c have kc: "k \<noteq> unat c" by (simp add: suc_unat)
  with free have old: "get_state p (of_nat k) = Free"
    by (simp add: get_state_set_state_nat [OF cN k31(1)])
  have new: "get_state (set_state p c Free) (of_nat (Suc k)) =
      (if Suc k = unat c then Free else get_state p (of_nat (Suc k)))"
    by (rule get_state_set_state_nat [OF cN k31(2)])
  show "get_state (set_state p c Free) (of_nat (Suc k)) \<noteq> Used"
  proof (cases "Suc k = unat c")
    case True
    then show ?thesis unfolding new by simp
  next
    case False
    with I k old have "get_state p (of_nat (Suc k)) \<noteq> Used" by blast
    with False show ?thesis unfolding new by simp
  qed
qed

lemma release_rest_no_used_after_free:
  "unat (nframes p) \<le> 2 ^ 31 \<Longrightarrow>
   \<forall>k. Suc k < unat (nframes p) \<longrightarrow> Suc k \<noteq> unat c \<longrightarrow>
       get_state p (of_nat k) = Free \<longrightarrow> get_state p (of_nat (Suc k)) \<noteq> Used \<Longrightarrow>
   no_used_after_free (release_rest p c)"
proof (induction p c rule: release_rest.induct)
  case (1 pool current_frame)
  show ?case
  proof (cases "current_frame < nframes pool \<and> get_state pool current_frame = Used")
    case True
    let ?p1 = "(set_state pool current_frame Free)\<lparr>nFreeFrames := nFreeFrames pool + 1\<rparr>"
    have "\<forall>k. Suc k < unat (nframes ?p1) \<longrightarrow> Suc k \<noteq> unat (current_frame + 1) \<longrightarrow>
              get_state ?p1 (of_nat k) = Free \<longrightarrow> get_state ?p1 (of_nat (Suc k)) \<noteq> Used"
      using free_one_gap [OF "1.prems"(1) _ "1.prems"(2)] True by simp
    moreover have "unat (nframes ?p1) \<le> 2 ^ 31" using "1.prems" by simp
    ultimately have "no_used_after_free (release_rest ?p1 (current_frame + 1))"
      using True by (intro "1.IH") simp_all
    then show ?thesis using True by (simp add: release_rest_step)
  next
    case False
    have "no_used_after_free pool"
      unfolding no_used_after_free_iff
    proof (intro allI impI)
      fix k assume k: "Suc k < unat (nframes pool)" and free: "get_state pool (of_nat k) = Free"
      show "get_state pool (of_nat (Suc k)) \<noteq> Used"
      proof (cases "Suc k = unat current_frame")
        case True
        with k have "current_frame < nframes pool" "of_nat (Suc k) = current_frame"
          by (simp_all add: word_less_nat_alt)
        with False show ?thesis by (simp del: of_nat_Suc)
      next
        case False
        with "1.prems"(2) k free show ?thesis by blast
      qed
    qed
    with False show ?thesis by (simp add: release_rest_stop)
  qed
qed

lemma release_sequence_no_used_after_free:
  assumes N: "unat (nframes p) \<le> 2 ^ 31" and r: "r < nframes p"
    and inv: "no_used_after_free p"
  shows "no_used_after_free (release_sequence p r)"
proof -
  let ?p1 = "(set_state p r Free)\<lparr>nFreeFrames := nFreeFrames p + 1\<rparr>"
  from inv have "\<forall>k. Suc k < unat (nframes p) \<longrightarrow> Suc k \<noteq> unat r \<longrightarrow>
      get_state p (of_nat k) = Free \<longrightarrow> get_state p (of_nat (Suc k)) \<noteq> Used"
    by (simp add: no_used_after_free_iff)
  with N r have "\<forall>k. Suc k < unat (nframes ?p1) \<longrightarrow> Suc k \<noteq> unat (r + 1) \<longrightarrow>
      get_state ?p1 (of_nat k) = Free \<longrightarrow> get_state ?p1 (of_nat (Suc k)) \<noteq> Used"
    using free_one_gap [of p r] by simp
  moreover have "unat (nframes ?p1) \<le> 2 ^ 31" using N by simp
  ultimately have "no_used_after_free (release_rest ?p1 (r + 1))"
    by (rule release_rest_no_used_after_free [rotated])
  then show ?thesis by (simp add: release_sequence_def)
qed

lemma release_frames_no_used_after_free:
  assumes all: "\<forall>q\<in>set qs. unat (nframes q) \<le> 2 ^ 31 \<and> no_used_after_free q"
    and rel: "release_frames qs f = Inr qs'"
  shows "\<forall>q\<in>set qs'. no_used_after_free q"
proof -
  from rel obtain k where k: "k < length qs" "owns (qs ! k) f"
    "qs' = qs[k := release_sequence (qs ! k) (f - base_frame_no (qs ! k))]"
    by (rule release_frames_Inr)
  from k(1) all have qk: "unat (nframes (qs ! k)) \<le> 2 ^ 31" "no_used_after_free (qs ! k)"
    by simp_all
  have "no_used_after_free (release_sequence (qs ! k) (f - base_frame_no (qs ! k)))"
    using qk(1) owns_relative [OF k(2)] qk(2) by (rule release_sequence_no_used_after_free)
  moreover have "set qs' \<subseteq> insert (release_sequence (qs ! k) (f - base_frame_no (qs ! k))) (set qs)"
    unfolding k(3) by (rule set_update_subset_insert)
  ultimately show ?thesis using all by auto
qed

section \<open>The claims\<close>

text \<open>
  C1 (as amended): for every pool of at most \<open>2 ^ 31\<close> frames and every request
  \<open>n\<close> with \<open>1 \<le> n \<le> free_count\<close>, if \<open>k\<close> is the lowest start offset among
  \<open>0 .. frame_count - n\<close> at which \<open>n\<close> consecutive frames are all Free, then
  \<open>get_frames n\<close> returns \<open>base_frame_no + k\<close>, marks offset \<open>k\<close> HoS and offsets
  \<open>k + 1 .. k + n - 1\<close> Used, decrements the count of free frames by \<open>n\<close>, and
  leaves every other frame of the pool as it was.
\<close>

theorem get_frames_takes_first_fit:
  assumes N: "unat (nframes p) \<le> 2 ^ 31"
    and n: "1 \<le> n" "n \<le> nFreeFrames p"
    and fit: "first_fit p n = Some k"
  shows "\<exists>p'. get_frames p n = Some (p', base_frame_no p + of_nat k) \<and>
     get_state p' (of_nat k) = HoS \<and>
     (\<forall>i. 1 \<le> i \<and> i < unat n \<longrightarrow> get_state p' (of_nat (k + i)) = Used) \<and>
     nFreeFrames p' = nFreeFrames p - n \<and>
     (\<forall>j. j < unat (nframes p) \<and> (j < k \<or> k + unat n \<le> j) \<longrightarrow>
        get_state p' (of_nat j) = get_state p (of_nat j)) \<and>
     nframes p' = nframes p \<and> base_frame_no p' = base_frame_no p"
  using assms by (rule get_frames_first_fit)

theorem get_frames_takes_first_fit_witness:
  "first_fit self_hosted_pool 2 = Some 1 \<and>
   (\<exists>p'. get_frames self_hosted_pool 2 = Some (p', 101) \<and>
      get_state p' 0 = Used \<and> get_state p' 1 = HoS \<and> get_state p' 2 = Used \<and>
      get_state p' 3 = Free \<and> nFreeFrames p' = 1)"
proof -
  have fit: "first_fit self_hosted_pool 2 = Some 1" by code_simp
  have old: "get_state self_hosted_pool 0 = Used" "get_state self_hosted_pool 3 = Free"
    by code_simp+
  have "unat (nframes self_hosted_pool) \<le> 2 ^ 31" "(1::ulong) \<le> 2"
    "2 \<le> nFreeFrames self_hosted_pool"
    by (simp_all add: self_hosted_fields)
  from get_frames_takes_first_fit [OF this fit]
  obtain p' where res: "get_frames self_hosted_pool 2
        = Some (p', base_frame_no self_hosted_pool + of_nat 1)"
    and head: "get_state p' (of_nat 1) = HoS"
    and tail: "\<forall>i. 1 \<le> i \<and> i < unat (2::ulong) \<longrightarrow> get_state p' (of_nat (1 + i)) = Used"
    and cnt: "nFreeFrames p' = nFreeFrames self_hosted_pool - 2"
    and rest: "\<forall>j. j < unat (nframes self_hosted_pool) \<and> (j < 1 \<or> 1 + unat (2::ulong) \<le> j) \<longrightarrow>
        get_state p' (of_nat j) = get_state self_hosted_pool (of_nat j)"
    by blast
  have "1 \<le> (1::nat) \<and> 1 < unat (2::ulong)" by simp
  with tail have "get_state p' (of_nat (1 + 1)) = Used" by blast
  then have "get_state p' 2 = Used" by simp
  moreover have "0 < unat (nframes self_hosted_pool) \<and> ((0::nat) < 1 \<or> 1 + unat (2::ulong) \<le> 0)"
    "3 < unat (nframes self_hosted_pool) \<and> ((3::nat) < 1 \<or> 1 + unat (2::ulong) \<le> 3)"
    by (simp_all add: self_hosted_fields)
  with rest have "get_state p' (of_nat 0) = get_state self_hosted_pool (of_nat 0)"
    "get_state p' (of_nat 3) = get_state self_hosted_pool (of_nat 3)"
    by blast+
  ultimately show ?thesis
    using res head cnt fit old by (simp add: self_hosted_fields)
qed

text \<open>
  The claim as stated, for every pool, fails at the guard of line 215: after the
  same two frames of a four-frame pool were reserved twice the count of free
  frames is 0, offsets 2 and 3 are Free, and a request for two frames returns 0
  without marking anything.
\<close>

theorem get_frames_guard_counterexample:
  "first_fit twice_reserved 2 = Some 2 \<and>
   get_frames twice_reserved 2 = Some (twice_reserved, 0) \<and>
   get_state twice_reserved 2 = Free"
proof -
  have "first_fit twice_reserved 2 = Some 2" "get_state twice_reserved 2 = Free"
    by code_simp+
  then show ?thesis by (simp add: get_frames_def twice_reserved_fields)
qed

text \<open>
  C2 (as amended): let a pool of at most \<open>2 ^ 31\<close> frames, whose range of frame
  numbers does not wrap around and in which no Used frame directly follows a
  Free frame, be registered, no pool registered before it passing the range
  test for the frame in question. For every \<open>n\<close> with \<open>1 \<le> n \<le> free_count\<close> for
  which a run of \<open>n\<close> Free frames exists, \<open>get_frames n\<close> returns a frame number
  on which \<open>release_frames\<close> returns normally, after which every frame of the
  allocated range is Free, the count of free frames has its value from before
  the allocation, and every frame of the pool has the state it had then.
\<close>

theorem release_after_get_frames:
  assumes k: "k < length ps"
    and before: "\<forall>j<k. \<not> owns (ps ! j) (base_frame_no (ps ! k) + of_nat s)"
    and wrap: "unat (base_frame_no (ps ! k)) + unat (nframes (ps ! k)) < 2 ^ 32"
    and N: "unat (nframes (ps ! k)) \<le> 2 ^ 31"
    and stray: "no_used_after_free (ps ! k)"
    and n: "1 \<le> n" "n \<le> nFreeFrames (ps ! k)"
    and fit: "first_fit (ps ! k) n = Some s"
  shows "\<exists>p' p''. get_frames (ps ! k) n = Some (p', base_frame_no (ps ! k) + of_nat s) \<and>
     release_frames (ps[k := p']) (base_frame_no (ps ! k) + of_nat s) = Inr (ps[k := p'']) \<and>
     (\<forall>i<unat n. get_state p'' (of_nat (s + i)) = Free) \<and>
     nFreeFrames p'' = nFreeFrames (ps ! k) \<and>
     (\<forall>j<unat (nframes (ps ! k)). get_state p'' (of_nat j) = get_state (ps ! k) (of_nat j))"
proof -
  let ?p = "ps ! k"
  let ?f = "base_frame_no ?p + of_nat s"
  let ?p' = "fst (take_sequence ?p (of_nat s) n)"
  let ?p'' = "release_sequence ?p' (of_nat s)"
  from fit have sn: "s + unat n \<le> unat (nframes ?p)" by (simp add: first_fit_Some_iff)
  from n(1) have "1 \<le> unat n" by (simp add: word_le_nat_alt)
  with sn have s: "s < unat (nframes ?p)" by simp
  have res: "get_frames ?p n = Some (?p', ?f)"
    using get_frames_fit_eq [OF n fit] by (simp add: take_sequence_eq)
  from get_frames_first_fit [OF N n fit] obtain q
    where "get_frames ?p n = Some (q, ?f)" "get_state q (of_nat s) = HoS" by blast
  with res have head: "get_state ?p' (of_nat s) = HoS" by simp
  have fields: "base_frame_no ?p' = base_frame_no ?p" "nframes ?p' = nframes ?p"
    by (simp_all add: take_sequence_eq)
  have own: "owns ?p' ?f" and rel: "?f - base_frame_no ?p' = of_nat s"
    using owns_offset [OF wrap s] by (simp_all add: fields owns_fields_cong [OF fields])
  have "release_frames (ps[k := ?p']) ?f = Inr (ps[k := ?p''])"
    using release_frames_at [OF k own before] head by (simp add: rel)
  with res round_trip [OF N n(1) fit stray] show ?thesis by blast
qed

theorem release_after_get_frames_witness:
  "first_fit (two_pools ! 1) 2 = Some 1 \<and>
   (\<exists>p' p''. get_frames (two_pools ! 1) 2 = Some (p', 101) \<and>
      release_frames (two_pools[1 := p']) 101 = Inr (two_pools[1 := p'']) \<and>
      get_state p'' 1 = Free \<and> get_state p'' 2 = Free \<and> nFreeFrames p'' = 3)"
proof -
  have p1: "two_pools ! 1 = self_hosted_pool" by (simp add: two_pools_eq)
  have k: "1 < length two_pools" by (simp add: two_pools_eq)
  have fit: "first_fit (two_pools ! 1) 2 = Some 1" unfolding p1 by code_simp
  have before: "\<forall>j<1. \<not> owns (two_pools ! j) (base_frame_no (two_pools ! 1) + of_nat 1)"
    by (simp add: two_pools_eq self_hosted_fields owns_def)
  have wrap: "unat (base_frame_no (two_pools ! 1)) + unat (nframes (two_pools ! 1)) < 2 ^ 32"
    and N: "unat (nframes (two_pools ! 1)) \<le> 2 ^ 31"
    and n: "(1::ulong) \<le> 2" "2 \<le> nFreeFrames (two_pools ! 1)"
    by (simp_all add: two_pools_eq self_hosted_fields)
  have stray: "no_used_after_free (two_pools ! 1)" unfolding p1 by code_simp
  from release_after_get_frames [OF k before wrap N stray n fit]
  obtain p' p'' where res: "get_frames (two_pools ! 1) 2
        = Some (p', base_frame_no (two_pools ! 1) + of_nat 1)"
    and rel: "release_frames (two_pools[1 := p']) (base_frame_no (two_pools ! 1) + of_nat 1)
        = Inr (two_pools[1 := p''])"
    and free: "\<forall>i<unat (2::ulong). get_state p'' (of_nat (1 + i)) = Free"
    and cnt: "nFreeFrames p'' = nFreeFrames (two_pools ! 1)"
    by blast
  have "(0::nat) < unat (2::ulong)" "(1::nat) < unat (2::ulong)" by simp_all
  with free have "get_state p'' (of_nat (1 + 0)) = Free" "get_state p'' (of_nat (1 + 1)) = Free"
    by blast+
  then have "get_state p'' 1 = Free" "get_state p'' 2 = Free" by simp_all
  moreover have "base_frame_no (two_pools ! 1) + of_nat 1 = 101"
    "nFreeFrames (two_pools ! 1) = 3"
    by (simp_all add: two_pools_eq self_hosted_fields)
  ultimately show ?thesis using res rel cnt fit by (simp only:) blast
qed

text \<open>
  The claim as stated, for any pool, fails for a pool constructed when the
  registry is full: the constructor does not register it (line 204), and
  \<open>release_frames\<close> on the frame its \<open>get_frames\<close> returned takes the fatal path
  "frame not found".
\<close>

theorem release_after_get_frames_counterexample:
  "length full_registry = Max_pools \<and>
   snd (ContFramePool full_registry zero_mem 1000 4 1) = full_registry \<and>
   first_fit unregistered_pool 2 = Some 0 \<and>
   get_frames unregistered_pool 2 = Some (take_sequence unregistered_pool 0 2) \<and>
   snd (take_sequence unregistered_pool 0 2) = 1000 \<and>
   release_frames full_registry 1000 = Inl (Frame_not_found, full_registry)"
proof -
  have fit: "first_fit unregistered_pool 2 = Some 0" by code_simp
  have "get_frames unregistered_pool 2 = Some (take_sequence unregistered_pool (of_nat 0) 2)"
    using fit by (intro get_frames_fit_eq) (simp_all add: unregistered_fields)
  moreover have "release_frames full_registry 1000 = Inl (Frame_not_found, full_registry)"
    using full_registry_unowned by (rule release_frames_unowned)
  ultimately show ?thesis
    using fit
    by (simp add: full_registry_length Max_pools_def snd_ContFramePool take_sequence_eq
        unregistered_fields)
qed

text \<open>
  C3: the code at the input \<open>get_frames 3\<close> on a pool of the two frames 100 and
  101 in which both frames were reserved twice. The count of free frames has
  wrapped around to \<open>2 ^ 32 - 2\<close>, so the guard of line 215 lets the request
  through; no start offset of the pool begins three Free frames, and the call
  should return 0 and change nothing. But the bound \<open>nframes - _n_frames\<close> of
  the scan wraps around as well, the scan goes on past the pool, takes the
  bitmap slots 2, 3 and 4 and returns 102: the slot at offset 2 changes from
  Free to HoS and the count of free frames changes.
\<close>

theorem get_frames_scans_past_pool:
  "nframes overdrawn_pool = 2 \<and> first_fit overdrawn_pool 3 = None \<and>
   get_frames overdrawn_pool 3 = Some (take_sequence overdrawn_pool 2 3) \<and>
   snd (take_sequence overdrawn_pool 2 3) = 102 \<and>
   get_state overdrawn_pool 2 = Free \<and>
   get_state (fst (take_sequence overdrawn_pool 2 3)) 2 = HoS \<and>
   nFreeFrames (fst (take_sequence overdrawn_pool 2 3)) = nFreeFrames overdrawn_pool - 3"
proof -
  have "first_fit overdrawn_pool 3 = None" by code_simp
  moreover have "get_frames overdrawn_pool 3 = Some (take_sequence overdrawn_pool 2 3)"
    by (simp add: get_frames_def overdrawn_fields scan_from.simps found_sequence.simps
        overdrawn_states)
  moreover have "get_state (fst (take_sequence overdrawn_pool 2 3)) 2 = HoS" by code_simp
  ultimately show ?thesis by (simp add: take_sequence_eq overdrawn_fields overdrawn_states)
qed

text \<open>
  C4 (as amended): let a pool of at most \<open>2 ^ 31\<close> frames be registered, passing
  the range test for \<open>base\<close>, no pool registered before it passing that test.
  After \<open>mark_inaccessible base n\<close> with \<open>n > 1\<close> on an in-range target,
  \<open>release_frames base\<close> returns normally and frees the head frame only: the
  head is Free, the count of free frames is larger by exactly 1, the frames
  \<open>base + 1 .. base + n - 1\<close> are Reserved, and no other frame has changed.
\<close>

theorem release_after_mark_inaccessible:
  assumes k: "k < length ps"
    and own: "owns (ps ! k) b"
    and before: "\<forall>j<k. \<not> owns (ps ! j) b"
    and N: "unat (nframes (ps ! k)) \<le> 2 ^ 31"
    and le: "unat (b - base_frame_no (ps ! k)) + unat n \<le> unat (nframes (ps ! k))"
    and n: "1 < n"
  shows "\<exists>p''. release_frames (ps[k := mark_inaccessible (ps ! k) b n]) b = Inr (ps[k := p'']) \<and>
     get_state p'' (b - base_frame_no (ps ! k)) = Free \<and>
     nFreeFrames p'' = nFreeFrames (mark_inaccessible (ps ! k) b n) + 1 \<and>
     (\<forall>i. 1 \<le> i \<and> i < unat n \<longrightarrow>
        get_state p'' (b - base_frame_no (ps ! k) + of_nat i) = Reserved) \<and>
     (\<forall>j<unat (nframes (ps ! k)). j \<noteq> unat (b - base_frame_no (ps ! k)) \<longrightarrow>
        get_state p'' (of_nat j) = get_state (mark_inaccessible (ps ! k) b n) (of_nat j))"
proof -
  let ?pm = "mark_inaccessible (ps ! k) b n"
  let ?rb = "b - base_frame_no (ps ! k)"
  note r = reserved_head_release [OF N le n]
  have "owns ?pm b" using own by (simp add: owns_def)
  from release_frames_at [OF k this before] r(1)
  have "release_frames (ps[k := ?pm]) b = Inr (ps[k := release_sequence ?pm ?rb])" by simp
  moreover have "nFreeFrames (release_sequence ?pm ?rb) = nFreeFrames ?pm + 1"
    unfolding r(2) by simp
  ultimately show ?thesis using r(3,4,5) by blast
qed

theorem release_after_mark_inaccessible_witness:
  "\<exists>p''. release_frames (two_pools[1 := mark_inaccessible (two_pools ! 1) 101 2]) 101
        = Inr (two_pools[1 := p'']) \<and>
     get_state p'' 1 = Free \<and> get_state p'' 2 = Reserved \<and> nFreeFrames p'' = 2"
proof -
  have k: "1 < length two_pools" by (simp add: two_pools_eq)
  have own: "owns (two_pools ! 1) 101"
    and before: "\<forall>j<1. \<not> owns (two_pools ! j) 101"
    and N: "unat (nframes (two_pools ! 1)) \<le> 2 ^ 31"
    and le: "unat (101 - base_frame_no (two_pools ! 1)) + unat (2::ulong)
               \<le> unat (nframes (two_pools ! 1))"
    and n: "(1::ulong) < 2"
    by (simp_all add: two_pools_eq self_hosted_fields owns_def)
  from release_after_mark_inaccessible [OF k own before N le n]
  obtain p'' where rel: "release_frames (two_pools[1 := mark_inaccessible (two_pools ! 1) 101 2]) 101
        = Inr (two_pools[1 := p''])"
    and head: "get_state p'' (101 - base_frame_no (two_pools ! 1)) = Free"
    and cnt: "nFreeFrames p'' = nFreeFrames (mark_inaccessible (two_pools ! 1) 101 2) + 1"
    and tail: "\<forall>i. 1 \<le> i \<and> i < unat (2::ulong) \<longrightarrow>
        get_state p'' (101 - base_frame_no (two_pools ! 1) + of_nat i) = Reserved"
    by blast
  have "1 \<le> (1::nat) \<and> 1 < unat (2::ulong)" by simp
  with tail have "get_state p'' (101 - base_frame_no (two_pools ! 1) + of_nat 1) = Reserved"
    by blast
  moreover have "101 - base_frame_no (two_pools ! 1) = 1"
    "101 - base_frame_no (two_pools ! 1) + of_nat 1 = 2"
    "nFreeFrames (mark_inaccessible (two_pools ! 1) 101 2) + 1 = 2"
    by (simp_all add: two_pools_eq self_hosted_fields nFreeFrames_mark_inaccessible
        word_le_nat_alt word_less_nat_alt)
  ultimately show ?thesis using rel head cnt by (simp only:) blast
qed

text \<open>
  The claim as stated, for every pool, fails for a pool constructed when the
  registry is full: \<open>release_frames base\<close> takes the fatal path "frame not
  found" and frees nothing.
\<close>

theorem release_after_mark_inaccessible_counterexample:
  "length full_registry = Max_pools \<and>
   snd (ContFramePool full_registry zero_mem 1000 4 1) = full_registry \<and>
   get_state (mark_inaccessible unregistered_pool 1000 2) 0 = HoS \<and>
   get_state (mark_inaccessible unregistered_pool 1000 2) 1 = Reserved \<and>
   release_frames full_registry 1000 = Inl (Frame_not_found, full_registry)"
proof -
  have "get_state (mark_inaccessible unregistered_pool 1000 2) 0 = HoS"
    "get_state (mark_inaccessible unregistered_pool 1000 2) 1 = Reserved"
    by code_simp+
  moreover have "release_frames full_registry 1000 = Inl (Frame_not_found, full_registry)"
    using full_registry_unowned by (rule release_frames_unowned)
  ultimately show ?thesis
    by (simp add: full_registry_length Max_pools_def snd_ContFramePool)
qed

text \<open>
  C5 (as amended): if the frame number lies in the range
  \<open>[base_frame_no, base_frame_no + frame_count)\<close> of no registered pool,
  \<open>release_frames\<close> takes the fatal path "frame not found". If a registered pool
  passes the range test of the code for the frame, no pool registered before it
  passes that test, and the state of the frame in that pool is not HoS, the
  call takes the fatal path "not Head-of-Sequence". In both cases the registry
  at the abort, bitmaps and counts of free frames included, is the registry
  before the call. The range test of the code is membership in
  \<open>[base_frame_no, base_frame_no + frame_count)\<close> for every pool whose range
  does not wrap around.
\<close>

theorem release_frames_fatal:
  "((\<forall>q\<in>set ps. \<not> frame_in_range q f) \<longrightarrow>
      release_frames ps f = Inl (Frame_not_found, ps)) \<and>
   (k < length ps \<and> owns (ps ! k) f \<and> (\<forall>j<k. \<not> owns (ps ! j) f) \<and>
    get_state (ps ! k) (f - base_frame_no (ps ! k)) \<noteq> HoS \<longrightarrow>
      release_frames ps f = Inl (Not_head_of_sequence, ps)) \<and>
   (unat (base_frame_no q) + unat (nframes q) < 2 ^ 32 \<longrightarrow>
      owns q f = frame_in_range q f)"
proof (intro conjI impI)
  assume "\<forall>q\<in>set ps. \<not> frame_in_range q f"
  then have "\<forall>j<length ps. \<not> frame_in_range (ps ! j) f" by simp
  then have "\<forall>j<length ps. \<not> owns (ps ! j) f"
    using owns_imp_frame_in_range by blast
  then show "release_frames ps f = Inl (Frame_not_found, ps)"
    by (rule release_frames_unowned)
next
  assume a: "k < length ps \<and> owns (ps ! k) f \<and> (\<forall>j<k. \<not> owns (ps ! j) f) \<and>
    get_state (ps ! k) (f - base_frame_no (ps ! k)) \<noteq> HoS"
  then have "k < length ps" "owns (ps ! k) f" "\<forall>j<k. \<not> owns (ps ! j) f" by simp_all
  from release_frames_resolved [OF this] a
  show "release_frames ps f = Inl (Not_head_of_sequence, ps)" by simp
next
  assume "unat (base_frame_no q) + unat (nframes q) < 2 ^ 32"
  then show "owns q f = frame_in_range q f" by (rule owns_iff_frame_in_range)
qed

theorem release_frames_fatal_witness:
  "release_frames two_pools 50 = Inl (Frame_not_found, two_pools) \<and>
   get_state (two_pools ! 1) 0 = Used \<and>
   release_frames two_pools 100 = Inl (Not_head_of_sequence, two_pools) \<and>
   owns (two_pools ! 1) 100 \<and> frame_in_range (two_pools ! 1) 100"
proof -
  have used: "get_state (two_pools ! 1) (100 - base_frame_no (two_pools ! 1)) = Used"
    by (simp add: two_pools_eq self_hosted_fields) code_simp
  have none: "\<forall>q\<in>set two_pools. \<not> frame_in_range q 50"
    by (simp add: two_pools_eq self_hosted_fields frame_in_range_def)
  have own: "owns (two_pools ! 1) 100"
    by (simp add: two_pools_eq self_hosted_fields owns_def)
  have "\<not> owns (two_pools ! 0) 100"
    by (simp add: two_pools_eq owns_def word_le_nat_alt word_less_nat_alt)
  then have before: "\<forall>j<1. \<not> owns (two_pools ! j) 100" by simp
  have one: "1 < length two_pools \<and> owns (two_pools ! 1) 100 \<and>
    (\<forall>j<1. \<not> owns (two_pools ! j) 100) \<and>
    get_state (two_pools ! 1) (100 - base_frame_no (two_pools ! 1)) \<noteq> HoS"
    using used own before by (simp add: two_pools_eq)
  have nowrap: "unat (base_frame_no (two_pools ! 1)) + unat (nframes (two_pools ! 1)) < 2 ^ 32"
    by (simp add: two_pools_eq self_hosted_fields)
  from release_frames_fatal [of two_pools 50 1 "two_pools ! 1"] none
  have "release_frames two_pools 50 = Inl (Frame_not_found, two_pools)" by blast
  moreover from release_frames_fatal [of two_pools 100 1 "two_pools ! 1"] one
  have "release_frames two_pools 100 = Inl (Not_head_of_sequence, two_pools)" by blast
  moreover from release_frames_fatal [of two_pools 100 1 "two_pools ! 1"] nowrap own
  have "frame_in_range (two_pools ! 1) 100" by blast
  moreover from used have "get_state (two_pools ! 1) 0 = Used"
    by (simp add: two_pools_eq self_hosted_fields)
  ultimately show ?thesis using own by blast
qed

text \<open>
  The claim as stated, for any registered pool that contains the frame, fails
  when the ranges of two registered pools overlap: the loop of lines 273-322
  returns at the first pool that passes the range test. Frame 102 lies in the
  range of the second pool, where its state is Free, not HoS; in the pool
  registered first it is a head of sequence, and \<open>release_frames 102\<close> returns
  normally and sets it Free there.
\<close>

theorem release_frames_fatal_counterexample:
  "frame_in_range (overlapping_pools ! 1) 102 \<and>
   get_state (overlapping_pools ! 1) (102 - base_frame_no (overlapping_pools ! 1)) = Free \<and>
   get_state (overlapping_pools ! 0) 2 = HoS \<and>
   release_frames overlapping_pools 102
     = Inr (overlapping_pools[0 := release_sequence (overlapping_pools ! 0) 2]) \<and>
   get_state (release_sequence (overlapping_pools ! 0) 2) 2 = Free"
proof -
  have f: "base_frame_no (overlapping_pools ! 0) = 100" "nframes (overlapping_pools ! 0) = 4"
    "base_frame_no (overlapping_pools ! 1) = 102" "nframes (overlapping_pools ! 1) = 4"
    by (simp_all add: overlapping_pools_def external_fields)
  have st: "get_state (overlapping_pools ! 1) 0 = Free" "get_state (overlapping_pools ! 0) 2 = HoS"
    "get_state (release_sequence (overlapping_pools ! 0) 2) 2 = Free"
    by code_simp+
  have own: "owns (overlapping_pools ! 0) 102"
    by (simp add: owns_def f word_le_nat_alt word_less_nat_alt)
  have "release_frames overlapping_pools 102
     = Inr (overlapping_pools[0 := release_sequence (overlapping_pools ! 0) 2])"
  proof -
    have len: "0 < length overlapping_pools" by (simp add: overlapping_pools_def)
    have rel: "102 - base_frame_no (overlapping_pools ! 0) = 2" by (simp add: f)
    from release_frames_resolved [OF len own] st(2) show ?thesis by (simp add: rel)
  qed
  moreover have "frame_in_range (overlapping_pools ! 1) 102"
    unfolding frame_in_range_def f by simp
  moreover have "get_state (overlapping_pools ! 1) (102 - base_frame_no (overlapping_pools ! 1))
      = Free"
    unfolding f using st(1) by simp
  ultimately show ?thesis using st(2,3) by blast
qed

text \<open>
  C6: the code at the input \<open>mark_inaccessible 101 0xFFFFFFFF\<close> on the pool of
  frames 100 to 103. The requested range starts at pool offset 1 and is not
  within \<open>[0, 4)\<close>, but \<open>relative_base + _n_frames\<close> wraps around to 0, the check
  of line 256 lets the call through, and the call is no silent no-op: the Free
  frame at offset 2 becomes Reserved and the count of free frames changes from
  4 to 5.
\<close>

theorem mark_inaccessible_overflow_marks:
  "get_state external_pool 2 = Free \<and> nFreeFrames external_pool = 4 \<and>
   get_state (mark_inaccessible external_pool 101 0xFFFFFFFF) 2 = Reserved \<and>
   nFreeFrames (mark_inaccessible external_pool 101 0xFFFFFFFF) = 5"
proof -
  let ?p = "mark_rest (set_state external_pool 1 HoS) 1 0xFFFFFFFF Reserved 1"
  have eq: "mark_inaccessible external_pool 101 0xFFFFFFFF
      = ?p\<lparr>nFreeFrames := nFreeFrames external_pool - 0xFFFFFFFF\<rparr>"
    by (simp add: mark_inaccessible_def Let_def external_fields word_le_nat_alt word_less_nat_alt)
  have "\<exists>k::ulong. 1 \<le> k \<and> k < 0xFFFFFFFF \<and> (1 + k) * 2 = 2 * 2"
    by (rule exI [of _ 1]) (simp add: word_less_nat_alt)
  then have "get_state ?p 2 = Reserved"
    by (simp only: get_state_mark_rest if_True)
  moreover have "get_state external_pool 2 = Free" by code_simp
  ultimately show ?thesis by (simp add: eq external_fields)
qed




text \<open>
  C8 (as amended): for every frame size \<open>FRAME_SIZE > 0\<close> and every count \<open>n\<close>
  of frames for which neither \<open>n * 2 + 7\<close> nor the sum of the bitmap size and
  \<open>FRAME_SIZE - 1\<close> exceeds the range of 32 bits, \<open>needed_info_frames n\<close> is
  \<open>ceil(ceil(n*2/8) / FRAME_SIZE)\<close>.
\<close>

theorem needed_info_frames_exact:
  assumes fs: "0 < FRAME_SIZE"
    and n: "unat n * 2 + 7 < 2 ^ 32"
    and b: "(unat n * 2 + 7) div 8 + unat FRAME_SIZE \<le> 2 ^ 32"
  shows "unat (needed_info_frames FRAME_SIZE n)
     = spec_needed_info_frames (unat FRAME_SIZE) (unat n)"
proof -
  from fs have fs1: "1 \<le> unat FRAME_SIZE" by (simp add: word_less_nat_alt)
  define bw where "bw = (n * 2 + 7) div 8"
  define fw where "fw = FRAME_SIZE - 1"
  have "unat (n * 2) = unat n * 2" using n by (simp add: unat_word_ariths)
  then have "unat (n * 2 + 7) = unat n * 2 + 7" using n by (simp add: unat_word_ariths)
  then have ub: "unat bw = (unat n * 2 + 7) div 8" by (simp add: bw_def unat_div)
  have uf: "unat fw = unat FRAME_SIZE - 1"
    using fs1 by (simp add: fw_def unat_sub word_le_nat_alt)
  have "unat bw + unat fw < 2 ^ LENGTH(32)" using b fs1 ub uf by simp
  then have "unat (bw + fw) = unat bw + unat fw" by (simp only: unat_add_lem)
  moreover have "bw + FRAME_SIZE - 1 = bw + fw" by (simp add: fw_def)
  then have "needed_info_frames FRAME_SIZE n = (bw + fw) div FRAME_SIZE"
    by (simp only: needed_info_frames_def Let_def bw_def)
  ultimately have "unat (needed_info_frames FRAME_SIZE n)
      = ((unat n * 2 + 7) div 8 + (unat FRAME_SIZE - 1)) div unat FRAME_SIZE"
    using ub uf by (simp only: unat_div)
  moreover have "spec_needed_info_frames (unat FRAME_SIZE) (unat n)
      = ((unat n * 2 + 8 - 1) div 8 + unat FRAME_SIZE - 1) div unat FRAME_SIZE"
    using fs1 ceiling_nat_div [of 8 "unat n * 2"]
      ceiling_nat_div [of "unat FRAME_SIZE" "(unat n * 2 + 8 - 1) div 8"]
    by (simp add: spec_needed_info_frames_def)
  ultimately show ?thesis using fs1 by (simp add: ac_simps)
qed

theorem needed_info_frames_exact_witness:
  "unat (needed_info_frames 4096 16385) = 2 \<and> spec_needed_info_frames 4096 16385 = 2"
proof -
  have "0 < (4096::ulong)" "unat (16385::ulong) * 2 + 7 < 2 ^ 32"
    "(unat (16385::ulong) * 2 + 7) div 8 + unat (4096::ulong) \<le> 2 ^ 32"
    by simp_all
  from needed_info_frames_exact [OF this]
  have "unat (needed_info_frames 4096 16385) = spec_needed_info_frames 4096 16385" by simp
  moreover have "needed_info_frames 4096 16385 = 2"
    by (simp add: needed_info_frames_def)
  ultimately show ?thesis by simp
qed

text \<open>
  The claim as stated, for every count, fails where \<open>n * 2\<close> wraps around: for
  \<open>n = 2 ^ 31\<close> and frames of 4096 bytes the code returns 0, and the formula
  gives 131072.
\<close>

theorem needed_info_frames_exact_counterexample:
  "needed_info_frames 4096 0x80000000 = 0 \<and>
   spec_needed_info_frames 4096 (unat (0x80000000 :: ulong)) = 131072"
proof -
  have "nat \<lceil>real (unat (0x80000000 :: ulong) * 2) / 8\<rceil> = 536870912"
    using ceiling_nat_div [of 8 "unat (0x80000000 :: ulong) * 2"] by simp
  moreover have "nat \<lceil>real (536870912::nat) / real (4096::nat)\<rceil> = 131072"
    using ceiling_nat_div [of 4096 536870912] by simp
  ultimately have "spec_needed_info_frames 4096 (unat (0x80000000 :: ulong)) = 131072"
    by (simp add: spec_needed_info_frames_def)
  moreover have "needed_info_frames 4096 0x80000000 = 0"
    by (simp add: needed_info_frames_def)
  ultimately show ?thesis by simp
qed

text \<open>
  C9 (as amended): for every pool constructed with \<open>info_frame_no = 0\<close> the
  constructor sets frame 0 of the pool to Used, not HoS, and the count of free
  frames is \<open>frame_count - 1\<close>. When the pool has at least one frame, its range
  of frame numbers does not wrap around, the registry has room and no
  registered pool passes the range test for its base frame, the pool is
  registered and \<open>release_frames base_frame_no\<close> takes the fatal path "not
  Head-of-Sequence", the registry being unchanged at the abort.
\<close>

theorem self_hosted_info_frame_not_releasable:
  "get_state (fst (ContFramePool ps mem base n 0)) 0 = Used \<and>
   get_state (fst (ContFramePool ps mem base n 0)) 0 \<noteq> HoS \<and>
   nFreeFrames (fst (ContFramePool ps mem base n 0)) = n - 1 \<and>
   (length ps < Max_pools \<and> (\<forall>q\<in>set ps. \<not> owns q base) \<and>
    1 \<le> n \<and> unat base + unat n < 2 ^ 32 \<longrightarrow>
      snd (ContFramePool ps mem base n 0) = ps @ [fst (ContFramePool ps mem base n 0)] \<and>
      release_frames (snd (ContFramePool ps mem base n 0)) base
        = Inl (Not_head_of_sequence, snd (ContFramePool ps mem base n 0)))"
proof (intro conjI impI)
  let ?p = "fst (ContFramePool ps mem base n 0)"
  let ?ps = "ps @ [?p]"
  show used: "get_state ?p 0 = Used"
    by (simp add: ContFramePool_def Let_def get_state_set_state)
  then show "get_state ?p 0 \<noteq> HoS" by simp
  show "nFreeFrames ?p = n - 1" by simp
  assume a: "length ps < Max_pools \<and> (\<forall>q\<in>set ps. \<not> owns q base) \<and>
    1 \<le> n \<and> unat base + unat n < 2 ^ 32"
  then show reg: "snd (ContFramePool ps mem base n 0) = ?ps"
    by (simp add: snd_ContFramePool)
  from a have "1 \<le> unat n" by (simp add: word_le_nat_alt)
  moreover from a have "unat (base + n) = unat base + unat n" by (simp add: unat_word_ariths)
  ultimately have own: "owns ?p base"
    by (simp add: owns_def word_less_nat_alt)
  have "release_frames ?ps base =
     (if get_state (?ps ! length ps) (base - base_frame_no (?ps ! length ps)) \<noteq> HoS
      then Inl (Not_head_of_sequence, ?ps)
      else Inr (?ps[length ps := release_sequence (?ps ! length ps)
                  (base - base_frame_no (?ps ! length ps))]))"
  proof (rule release_frames_resolved)
    show "length ps < length ?ps" by simp
    show "owns (?ps ! length ps) base" using own by simp
    show "\<forall>j<length ps. \<not> owns (?ps ! j) base" using a by (simp add: nth_append)
  qed
  then have "release_frames ?ps base = Inl (Not_head_of_sequence, ?ps)"
    using used by simp
  with reg show "release_frames (snd (ContFramePool ps mem base n 0)) base
        = Inl (Not_head_of_sequence, snd (ContFramePool ps mem base n 0))" by simp
qed

theorem self_hosted_info_frame_not_releasable_witness:
  "get_state (fst (ContFramePool one_pool zero_mem 100 4 0)) 0 = Used \<and>
   nFreeFrames (fst (ContFramePool one_pool zero_mem 100 4 0)) = 3 \<and>
   release_frames (snd (ContFramePool one_pool zero_mem 100 4 0)) 100
     = Inl (Not_head_of_sequence, snd (ContFramePool one_pool zero_mem 100 4 0))"
proof -
  have "length one_pool < Max_pools \<and> (\<forall>q\<in>set one_pool. \<not> owns q 100) \<and>
    (1::ulong) \<le> 4 \<and> unat (100::ulong) + unat (4::ulong) < 2 ^ 32"
    by (simp add: one_pool_eq Max_pools_def owns_def)
  with self_hosted_info_frame_not_releasable [of one_pool zero_mem 100 4]
  have "get_state (fst (ContFramePool one_pool zero_mem 100 4 0)) 0 = Used"
    "nFreeFrames (fst (ContFramePool one_pool zero_mem 100 4 0)) = 4 - 1"
    "release_frames (snd (ContFramePool one_pool zero_mem 100 4 0)) 100
     = Inl (Not_head_of_sequence, snd (ContFramePool one_pool zero_mem 100 4 0))"
    by blast+
  then show ?thesis by simp
qed

text \<open>
  The claim as stated, for every self-hosted pool, fails for a pool constructed
  when the registry is full: it is not registered, and \<open>release_frames\<close> on its
  base frame takes the fatal path "frame not found" instead.
\<close>

theorem self_hosted_info_frame_not_releasable_counterexample:
  "length full_registry = Max_pools \<and>
   get_state (fst (ContFramePool full_registry zero_mem 1000 4 0)) 0 = Used \<and>
   snd (ContFramePool full_registry zero_mem 1000 4 0) = full_registry \<and>
   release_frames (snd (ContFramePool full_registry zero_mem 1000 4 0)) 1000
     = Inl (Frame_not_found, full_registry)"
proof -
  have "release_frames full_registry 1000 = Inl (Frame_not_found, full_registry)"
    using full_registry_unowned by (rule release_frames_unowned)
  moreover have "get_state (fst (ContFramePool full_registry zero_mem 1000 4 0)) 0 = Used"
    by (simp add: ContFramePool_def Let_def get_state_set_state)
  ultimately show ?thesis
    by (simp add: full_registry_length Max_pools_def snd_ContFramePool)
qed

text \<open>
  C10: a request for zero frames never fails. The vacuous inner scan accepts
  start offset 0 at once, so \<open>get_frames 0\<close> returns \<open>base_frame_no\<close>, writes HoS
  over the state of pool offset 0 whatever that state was, and leaves the count
  of free frames as it is.
\<close>

theorem get_frames_zero_overwrites_head:
  "get_frames p 0 = Some (set_state p 0 HoS, base_frame_no p) \<and>
   get_state (set_state p 0 HoS) 0 = HoS \<and>
   nFreeFrames (set_state p 0 HoS) = nFreeFrames p"
proof -
  have "found_sequence p 0 0 0" by (subst found_sequence.simps) simp
  moreover have "mark_rest (set_state p 0 HoS) 0 0 Used 1 = set_state p 0 HoS"
    by (subst mark_rest.simps) simp
  ultimately have "scan_from p 0 0 = Some (set_state p 0 HoS, base_frame_no p)"
    by (subst scan_from.simps) (simp add: take_sequence_def)
  then show ?thesis by (simp add: get_frames_def get_state_set_state)
qed

end
